theory Spec2Isabelle
  imports Complex_Main "HOL-Library.Extended_Nat"
begin

section \<open>Prompt threat detection: keyword scoring fused with a classifier\<close>

text \<open>
  A shallow embedding of \<^verbatim>\<open>backend/detector.py\<close> and \<^verbatim>\<open>backend/ml_model.py\<close>.

  Python strings are sequences of code points. A \<^typ>\<open>char\<close> stands for a code point in
  the range U+0000 .. U+00FF, and the character classes below are those of Python 3 on that
  range. Python floats are modelled by \<^typ>\<open>real\<close>, so rounding is exact decimal rounding
  (ties to even) and there is no NaN or infinity.
\<close>

subsection \<open>Python strings\<close>

definition is_space :: "char \<Rightarrow> bool" where
  \<comment> \<open>\<^verbatim>\<open>str.isspace\<close> on one character, which is also the regular expression class \<^verbatim>\<open>\s\<close>\<close>
  "is_space c =
     (let n = (of_char c :: nat)
      in (9 \<le> n \<and> n \<le> 13) \<or> (28 \<le> n \<and> n \<le> 32) \<or> n = 133 \<or> n = 160)"

definition is_alnum :: "char \<Rightarrow> bool" where
  \<comment> \<open>\<^verbatim>\<open>str.isalnum\<close> on one character: a letter, a digit or another numeric character\<close>
  "is_alnum c =
     (let n = (of_char c :: nat)
      in (48 \<le> n \<and> n \<le> 57) \<or> (65 \<le> n \<and> n \<le> 90) \<or> (97 \<le> n \<and> n \<le> 122)
         \<or> n = 170 \<or> n = 178 \<or> n = 179 \<or> n = 181 \<or> n = 185 \<or> n = 186
         \<or> (188 \<le> n \<and> n \<le> 190) \<or> (192 \<le> n \<and> n \<le> 214) \<or> (216 \<le> n \<and> n \<le> 246)
         \<or> 248 \<le> n)"

definition is_word :: "char \<Rightarrow> bool" where
  \<comment> \<open>the regular expression class \<^verbatim>\<open>\w\<close>: alphanumeric or the underscore\<close>
  "is_word c = (is_alnum c \<or> c = CHR ''_'')"

definition lower_char :: "char \<Rightarrow> char" where
  \<comment> \<open>\<^verbatim>\<open>str.lower\<close> on one character\<close>
  "lower_char c =
     (let n = (of_char c :: nat)
      in if (65 \<le> n \<and> n \<le> 90) \<or> (192 \<le> n \<and> n \<le> 214) \<or> (216 \<le> n \<and> n \<le> 222)
         then char_of (n + 32) else c)"

definition py_lower :: "string \<Rightarrow> string" where
  "py_lower s = map lower_char s"

definition py_strip :: "string \<Rightarrow> string" where
  "py_strip s = rev (dropWhile is_space (rev (dropWhile is_space s)))"

definition sub_punct :: "string \<Rightarrow> string" where
  \<comment> \<open>\<^verbatim>\<open>re.sub(r"[^\w\s]", " ", s)\<close>\<close>
  "sub_punct s = map (\<lambda>c. if \<not> is_word c \<and> \<not> is_space c then CHR '' '' else c) s"

function sub_spaces :: "string \<Rightarrow> string" where
  \<comment> \<open>\<^verbatim>\<open>re.sub(r"\s+", " ", s)\<close>: every maximal run of whitespace becomes one space\<close>
  "sub_spaces [] = []"
| "sub_spaces (c # cs) =
     (if is_space c then CHR '' '' # sub_spaces (dropWhile is_space cs)
      else c # sub_spaces cs)"
  by pat_completeness auto
termination
  by (relation "measure length") (auto simp: le_imp_less_Suc length_dropWhile_le)

function py_split :: "string \<Rightarrow> string list" where
  \<comment> \<open>\<^verbatim>\<open>str.split()\<close> without arguments\<close>
  "py_split s =
     (case dropWhile is_space s of
        [] \<Rightarrow> []
      | c # cs \<Rightarrow> (c # takeWhile (\<lambda>x. \<not> is_space x) cs)
                  # py_split (dropWhile (\<lambda>x. \<not> is_space x) cs))"
  by pat_completeness auto
termination
proof (relation "measure length", simp, goal_cases)
  case (1 s c cs)
  have "length (dropWhile (\<lambda>x. \<not> is_space x) cs) \<le> length cs"
    by (rule length_dropWhile_le)
  moreover have "length (c # cs) \<le> length s"
    using 1 length_dropWhile_le [of is_space s] by simp
  ultimately show ?case by simp
qed

declare py_split.simps [simp del]

fun starts_with :: "string \<Rightarrow> string \<Rightarrow> bool" where
  "starts_with s [] = True"
| "starts_with [] (p # ps) = False"
| "starts_with (c # cs) (p # ps) = (c = p \<and> starts_with cs ps)"

fun py_in :: "string \<Rightarrow> string \<Rightarrow> bool" where
  \<comment> \<open>\<^verbatim>\<open>sub in s\<close> on strings\<close>
  "py_in sub [] = (sub = [])"
| "py_in sub (c # cs) = (starts_with (c # cs) sub \<or> py_in sub cs)"

subsection \<open>Keyword detection configuration\<close>

definition RISKY_ACTIONS :: "string list" where
  "RISKY_ACTIONS =
     [''kill'', ''hack'', ''bypass'', ''override'', ''reveal'', ''disable'',
      ''steal'', ''access'', ''make'', ''create'', ''build'', ''produce'', ''manufacture'']"

definition SENSITIVE_TARGETS :: "string list" where
  "SENSITIVE_TARGETS =
     [''human'', ''person'', ''people'', ''user'', ''system'', ''database'',
      ''password'', ''account'', ''server'', ''backend'', ''drug'', ''cocaine'',
      ''bomb'', ''weapon'', ''explosive'']"

definition SAFE_TARGETS :: "string list" where
  "SAFE_TARGETS = [''virus'', ''bug'', ''malware'', ''error'', ''issue'', ''file'']"

definition MAX_DISTANCE :: int where
  "MAX_DISTANCE = 3"

subsection \<open>Edit distance and closest match\<close>

type_synonym table = "nat list list"

definition tbl_set :: "table \<Rightarrow> nat \<Rightarrow> nat \<Rightarrow> nat \<Rightarrow> table" where
  \<comment> \<open>\<^verbatim>\<open>dp[i][j] = v\<close>; the rows are distinct lists, and every index used is in range\<close>
  "tbl_set dp i j v = dp[i := (dp ! i)[j := v]]"

definition lev_cell :: "'a list \<Rightarrow> 'a list \<Rightarrow> nat \<Rightarrow> nat \<Rightarrow> table \<Rightarrow> table" where
  \<comment> \<open>the body of the inner loop\<close>
  "lev_cell a b i j dp =
     (let cost = (if a ! (i - 1) = b ! (j - 1) then 0 else 1)
      in tbl_set dp i j
           (min (min (dp ! (i - 1) ! j + 1) (dp ! i ! (j - 1) + 1)) (dp ! (i - 1) ! (j - 1) + cost)))"

definition lev_table :: "'a list \<Rightarrow> 'a list \<Rightarrow> table" where
  "lev_table a b =
     (let m = length a; n = length b;
          dp = replicate (m + 1) (replicate (n + 1) 0);
          dp = fold (\<lambda>i dp. tbl_set dp i 0 i) [0..<m + 1] dp;
          dp = fold (\<lambda>j dp. tbl_set dp 0 j j) [0..<n + 1] dp
      in fold (\<lambda>i dp. fold (lev_cell a b i) [1..<n + 1] dp) [1..<m + 1] dp)"

definition levenshtein :: "'a list \<Rightarrow> 'a list \<Rightarrow> nat" where
  "levenshtein a b = lev_table a b ! length a ! length b"

definition closest_step :: "string \<Rightarrow> nat \<Rightarrow> string \<Rightarrow> string option \<times> enat \<Rightarrow> string option \<times> enat" where
  \<comment> \<open>the body of the loop of \<^verbatim>\<open>_closest_match\<close> on the state \<^verbatim>\<open>(best, best_dist)\<close>\<close>
  "closest_step token max_dist c st =
     (let d = levenshtein token c
      in if d \<le> max_dist \<and> enat d < snd st then (Some c, enat d) else st)"

definition closest_match :: "string \<Rightarrow> string list \<Rightarrow> nat \<Rightarrow> string option" where
  "closest_match token candidates max_dist =
     fst (fold (closest_step token max_dist) candidates (None, \<infinity>))"

subsection \<open>Keyword scoring\<close>

record hit =
  word :: string
  idx :: int

definition lexicon_match :: "string \<Rightarrow> string list \<Rightarrow> string option" where
  \<comment> \<open>\<^verbatim>\<open>token if token in LEXICON else _closest_match(token, LEXICON, 1)\<close>\<close>
  "lexicon_match token lexicon =
     (if token \<in> set lexicon then Some token else closest_match token lexicon 1)"

definition truthy :: "string option \<Rightarrow> bool" where
  \<comment> \<open>Python truth value of a string or \<^verbatim>\<open>None\<close>\<close>
  "truthy m = (case m of None \<Rightarrow> False | Some w \<Rightarrow> w \<noteq> [])"

definition append_hit :: "string option \<Rightarrow> int \<Rightarrow> hit list \<Rightarrow> hit list" where
  "append_hit m i hs = (if truthy m then hs @ [\<lparr>word = the m, idx = i\<rparr>] else hs)"

definition scan_step :: "nat \<times> string \<Rightarrow> hit list \<times> hit list \<times> hit list \<Rightarrow> hit list \<times> hit list \<times> hit list" where
  \<comment> \<open>the body of the loop over \<^verbatim>\<open>enumerate(tokens)\<close>\<close>
  "scan_step p st =
     (case (p, st) of ((i, token), (action_indices, sensitive_indices, safe_indices)) \<Rightarrow>
        (append_hit (lexicon_match token RISKY_ACTIONS) (int i) action_indices,
         append_hit (lexicon_match token SENSITIVE_TARGETS) (int i) sensitive_indices,
         append_hit (lexicon_match token SAFE_TARGETS) (int i) safe_indices))"

definition scan_tokens :: "string list \<Rightarrow> hit list \<times> hit list \<times> hit list" where
  "scan_tokens tokens = fold scan_step (List.enumerate 0 tokens) ([], [], [])"

definition pattern_score :: "int \<Rightarrow> hit list \<Rightarrow> hit list \<Rightarrow> int \<Rightarrow> int" where
  \<comment> \<open>the nested loops over action hits and target hits, adding \<open>w\<close> per pair in the window\<close>
  "pattern_score w actions targets score =
     fold (\<lambda>a score.
        fold (\<lambda>t score. if \<bar>idx a - idx t\<bar> \<le> MAX_DISTANCE then score + w else score)
          targets score)
       actions score"

definition normalize :: "string \<Rightarrow> string" where
  "normalize prompt = py_strip (sub_spaces (sub_punct (py_lower prompt)))"

definition has_intent_phrase :: "string \<Rightarrow> bool" where
  "has_intent_phrase normalized =
     (py_in ''how to'' normalized \<or> py_in ''ways to'' normalized \<or> py_in ''method to'' normalized)"

definition keyword_score :: "string \<Rightarrow> int \<times> string set \<times> string set" where
  "keyword_score prompt =
     (let normalized = normalize prompt
      in if normalized = [] then (0, {}, {})
         else
          (let tokens = py_split normalized;
               (action_indices, sensitive_indices, safe_indices) = scan_tokens tokens;
               score = pattern_score 3 action_indices sensitive_indices 0;
               score = pattern_score 1 action_indices safe_indices score;
               score = (if has_intent_phrase normalized then score + 1 else score);
               score = min score 5
           in (score, set (map word action_indices), set (map word sensitive_indices))))"

subsection \<open>The classifier adapter\<close>

datatype py_error = IndexError | Exception string

record ml_result =
  ml_prediction :: string
  ml_confidence :: real

record 'x vectorizer =
  transform :: "string list \<Rightarrow> py_error + 'x"

record 'x model =
  predict :: "'x \<Rightarrow> py_error + int list"
  predict_proba :: "'x \<Rightarrow> py_error + real list list"

definition py_index :: "'a list \<Rightarrow> int \<Rightarrow> py_error + 'a" where
  \<comment> \<open>\<^verbatim>\<open>xs[i]\<close> on a sequence; an index below zero is taken from the end\<close>
  "py_index xs i =
     (if 0 \<le> i \<and> i < int (length xs) then Inr (xs ! nat i)
      else if i < 0 \<and> - int (length xs) \<le> i then Inr (xs ! nat (int (length xs) + i))
      else Inl IndexError)"

definition round_half_even :: "real \<Rightarrow> int" where
  "round_half_even y =
     (let f = \<lfloor>y\<rfloor>; d = y - of_int f
      in if d < 1 / 2 then f else if 1 / 2 < d then f + 1 else if even f then f else f + 1)"

definition py_round :: "real \<Rightarrow> nat \<Rightarrow> real" where
  \<comment> \<open>\<^verbatim>\<open>round(x, ndigits)\<close>\<close>
  "py_round x ndigits = of_int (round_half_even (x * 10 ^ ndigits)) / 10 ^ ndigits"

definition preprocess :: "string option \<Rightarrow> string" where
  "preprocess prompt = py_strip (py_lower (case prompt of None \<Rightarrow> [] | Some s \<Rightarrow> s))"

definition SAFE_DEFAULT :: ml_result where
  "SAFE_DEFAULT = \<lparr>ml_prediction = ''SAFE'', ml_confidence = 0\<rparr>"

definition predict_body :: "'x model \<Rightarrow> 'x vectorizer \<Rightarrow> string option \<Rightarrow> py_error + ml_result" where
  \<comment> \<open>the statements inside the \<^verbatim>\<open>try\<close> of \<^verbatim>\<open>predict_prompt\<close>\<close>
  "predict_body mdl vec prompt =
     (let text = preprocess prompt
      in case transform vec [text] of Inl e \<Rightarrow> Inl e | Inr X \<Rightarrow>
         (case predict mdl X of Inl e \<Rightarrow> Inl e | Inr preds \<Rightarrow>
         (case py_index preds 0 of Inl e \<Rightarrow> Inl e | Inr pred \<Rightarrow>
         (case predict_proba mdl X of Inl e \<Rightarrow> Inl e | Inr probas \<Rightarrow>
         (case py_index probas 0 of Inl e \<Rightarrow> Inl e | Inr proba \<Rightarrow>
         (let label = (if pred = 0 then ''SAFE'' else ''MALICIOUS'')
          in case py_index proba pred of Inl e \<Rightarrow> Inl e | Inr confidence \<Rightarrow>
             Inr \<lparr>ml_prediction = label, ml_confidence = py_round confidence 4\<rparr>))))))"

definition predict_prompt :: "'x model option \<Rightarrow> 'x vectorizer option \<Rightarrow> string option \<Rightarrow> py_error + ml_result" where
  \<comment> \<open>the module globals \<^verbatim>\<open>model\<close> and \<^verbatim>\<open>vectorizer\<close> are the first two arguments\<close>
  "predict_prompt mdl vec prompt =
     (case (mdl, vec) of
        (Some m, Some v) \<Rightarrow>
          (case predict_body m v prompt of Inl e \<Rightarrow> Inr SAFE_DEFAULT | Inr r \<Rightarrow> Inr r)
      | _ \<Rightarrow> Inr SAFE_DEFAULT)"

subsection \<open>The main detection function\<close>

text \<open>
  The report has the fields of the dictionary that \<^verbatim>\<open>analyze_prompt\<close> returns, except the constant
  \<^verbatim>\<open>scale\<close>: its value contains an en dash, U+2013, which lies beyond the characters modelled here.
  The two detected lists are built from Python sets, so their order is unspecified and they are
  sets here.
\<close>

record threat_report =
  threatScore :: real
  threatLevel :: string
  detectedActions :: "string set"
  detectedTargets :: "string set"
  mlPrediction :: string
  mlConfidence :: real
  confidence :: string
  explanation :: string
  detectionMethod :: string

definition fuse :: "int \<Rightarrow> py_error + ml_result \<Rightarrow> string \<times> real \<times> real" where
  \<comment> \<open>the \<^verbatim>\<open>try\<close> block of \<^verbatim>\<open>analyze_prompt\<close>: the values of
      \<^verbatim>\<open>(ml_prediction, ml_confidence, score)\<close> after it\<close>
  "fuse kw res =
     (case res of
        Inl e \<Rightarrow> (''SAFE'', 0, of_int kw)
      | Inr ml_result \<Rightarrow>
          (let p = ml_prediction ml_result; c = ml_confidence ml_result
           in if p = ''MALICIOUS''
              then (let score = of_int kw + c * 5
                    in (p, c, if 1 / 2 \<le> c then max score 7 else score))
              else (p, c, of_int kw)))"

definition analyze_prompt :: "(string \<Rightarrow> py_error + ml_result) \<Rightarrow> string option \<Rightarrow> threat_report" where
  \<comment> \<open>the first argument is the imported function \<^verbatim>\<open>predict_prompt\<close>\<close>
  "analyze_prompt predict_fn prompt0 =
     (let prompt = py_strip (case prompt0 of None \<Rightarrow> [] | Some s \<Rightarrow> s);
          (kw, detected_actions, detected_targets) = keyword_score prompt;
          (ml_pred, ml_conf, score) = fuse kw (predict_fn prompt);
          score = min 10 (py_round score 1);
          threat_level = (if score \<le> 2 then ''SAFE'' else if score \<le> 6 then ''MEDIUM'' else ''HIGH'');
          conf = (if 8 \<le> score then ''high'' else if 4 \<le> score then ''medium'' else ''low'')
      in \<lparr>threatScore = score, threatLevel = threat_level,
          detectedActions = detected_actions, detectedTargets = detected_targets,
          mlPrediction = ml_pred, mlConfidence = ml_conf, confidence = conf,
          explanation = ''Analysis based on keyword patterns and machine learning detection.'',
          detectionMethod = ''Keyword + Machine Learning''\<rparr>)"

definition analyze :: "'x model option \<Rightarrow> 'x vectorizer option \<Rightarrow> string option \<Rightarrow> threat_report" where
  \<comment> \<open>\<^verbatim>\<open>analyze_prompt\<close> with the adapter of \<^verbatim>\<open>ml_model.py\<close>\<close>
  "analyze mdl vec = analyze_prompt (\<lambda>p. predict_prompt mdl vec (Some p))"

subsection \<open>Example classifiers\<close>

definition demo_model :: "unit model" where
  "demo_model = \<lparr>predict = (\<lambda>_. Inr [1]), predict_proba = (\<lambda>_. Inr [[1 / 5, 4 / 5]])\<rparr>"

definition demo_vectorizer :: "unit vectorizer" where
  "demo_vectorizer = \<lparr>transform = (\<lambda>_. Inr ())\<rparr>"

definition broken_model :: "unit model" where
  "broken_model = \<lparr>predict = (\<lambda>_. Inr []), predict_proba = (\<lambda>_. Inl (Exception ''ValueError''))\<rparr>"


subsection \<open>Upper case, for the statement of case invariance\<close>

text \<open>
  The code never calls \<^verbatim>\<open>str.upper\<close>; it is needed only to state how \<^verbatim>\<open>analyze_prompt\<close> behaves on
  an upper-cased prompt. The upper case of U+00DF is the two letters SS, and the upper cases of
  U+00B5 and U+00FF lie beyond U+00FF, where this model has no characters: \<open>None\<close>.
\<close>

definition upper_char :: "char \<Rightarrow> string option" where
  "upper_char c =
     (let n = (of_char c :: nat)
      in if n = 181 \<or> n = 255 then None
         else if n = 223 then Some ''SS''
         else if (97 \<le> n \<and> n \<le> 122) \<or> (224 \<le> n \<and> n \<le> 246) \<or> (248 \<le> n \<and> n \<le> 254)
         then Some [char_of (n - 32)]
         else Some [c])"

fun py_upper :: "string \<Rightarrow> string option" where
  "py_upper [] = Some []"
| "py_upper (c # cs) =
     (case upper_char c of
        None \<Rightarrow> None
      | Some u \<Rightarrow> (case py_upper cs of None \<Rightarrow> None | Some us \<Rightarrow> Some (u @ us)))"

definition is_ascii :: "char \<Rightarrow> bool" where
  "is_ascii c = ((of_char c :: nat) < 128)"

text \<open>The prompt "ha\<ss>k password", whose third character is U+00DF, the sharp s.\<close>

definition sharp_s_prompt :: string where
  "sharp_s_prompt = [CHR ''h'', CHR ''a'', CHR 0xDF, CHR ''k'', CHR '' '',
     CHR ''p'', CHR ''a'', CHR ''s'', CHR ''s'', CHR ''w'', CHR ''o'', CHR ''r'', CHR ''d'']"

subsection \<open>The matcher and the scorer as the specification words them\<close>

text \<open>
  The classic dynamic-programming edit distance: \<open>lev_rec a b i j\<close> is the distance between the
  first \<open>i\<close> characters of \<open>a\<close> and the first \<open>j\<close> characters of \<open>b\<close>, where a deletion, an
  insertion and a substitution cost 1 each.
\<close>

fun lev_rec :: "'a list \<Rightarrow> 'a list \<Rightarrow> nat \<Rightarrow> nat \<Rightarrow> nat" where
  "lev_rec a b 0 j = j"
| "lev_rec a b (Suc i) 0 = Suc i"
| "lev_rec a b (Suc i) (Suc j) =
     min (min (lev_rec a b i (Suc j) + 1) (lev_rec a b (Suc i) j + 1))
         (lev_rec a b i j + (if a ! i = b ! j then 0 else 1))"

definition edit_distance :: "'a list \<Rightarrow> 'a list \<Rightarrow> nat" where
  "edit_distance a b = lev_rec a b (length a) (length b)"


text \<open>
  The fuzzy matcher: the token itself when the lexicon contains it; otherwise the first entry, in
  the order of the lexicon, whose distance is at most \<open>d\<close> and is the smallest of all entries.
\<close>

definition spec_match :: "string \<Rightarrow> string list \<Rightarrow> nat \<Rightarrow> string option" where
  "spec_match token lexicon d =
     (if token \<in> set lexicon then Some token
      else find (\<lambda>c. edit_distance token c \<le> d
                 \<and> (\<forall>c' \<in> set lexicon. edit_distance token c \<le> edit_distance token c')) lexicon)"


text \<open>
  The scorer: the hits of a lexicon in token order, the pairs of hits within the window of three
  positions, and the clamped sum.
\<close>

definition near :: "hit \<Rightarrow> hit \<Rightarrow> bool" where
  "near a t \<longleftrightarrow> \<bar>idx a - idx t\<bar> \<le> 3"

definition spec_hits :: "string list \<Rightarrow> string list \<Rightarrow> hit list" where
  "spec_hits lexicon tokens =
     map (\<lambda>(i, token). \<lparr>word = the (lexicon_match token lexicon), idx = int i\<rparr>)
       (filter (\<lambda>(i, token). truthy (lexicon_match token lexicon)) (List.enumerate 0 tokens))"

definition spec_keyword_score :: "hit list \<Rightarrow> hit list \<Rightarrow> hit list \<Rightarrow> bool \<Rightarrow> int" where
  "spec_keyword_score actions sensitive safe intent =
     min 5 (3 * int (length (filter (\<lambda>(a, t). near a t) (List.product actions sensitive)))
            + 1 * int (length (filter (\<lambda>(a, t). near a t) (List.product actions safe)))
            + (if intent then 1 else 0))"

definition contains :: "string \<Rightarrow> string \<Rightarrow> bool" where
  "contains s sub \<longleftrightarrow> (\<exists>p q. s = p @ sub @ q)"


text \<open>
  The tokenizer: \<open>runs P acc s\<close> lists, in order, the maximal runs of characters of \<open>s\<close> that
  satisfy \<open>P\<close>, where \<open>acc\<close> is the run being read; the word runs of a string are its maximal
  runs of word characters, and \<open>join_spaces\<close> puts one space between consecutive tokens.
\<close>

fun runs :: "('a \<Rightarrow> bool) \<Rightarrow> 'a list \<Rightarrow> 'a list \<Rightarrow> 'a list list" where
  "runs P acc [] = (if acc = [] then [] else [acc])"
| "runs P acc (c # cs) =
     (if P c then runs P (acc @ [c]) cs
      else if acc = [] then runs P [] cs
      else acc # runs P [] cs)"

definition word_runs :: "string \<Rightarrow> string list" where
  "word_runs s = runs is_word [] s"

fun join_spaces :: "string list \<Rightarrow> string" where
  "join_spaces [] = []"
| "join_spaces [t] = t"
| "join_spaces (t # u # us) = t @ CHR '' '' # join_spaces (u # us)"


subsection \<open>Auxiliary notions of the proofs\<close>

text \<open>
  A table of the right shape, a table whose cells marked \<open>done\<close> hold the distance of the
  prefixes, the first element of a list at which a measure is least, and the hits among a list of
  indexed tokens.
\<close>

definition shaped :: "nat \<Rightarrow> nat \<Rightarrow> table \<Rightarrow> bool" where
  "shaped m n dp \<longleftrightarrow> length dp = m + 1 \<and> (\<forall>i \<le> m. length (dp ! i) = n + 1)"

definition filled :: "'a list \<Rightarrow> 'a list \<Rightarrow> (nat \<Rightarrow> nat \<Rightarrow> bool) \<Rightarrow> table \<Rightarrow> bool" where
  "filled a b done dp \<longleftrightarrow>
     shaped (length a) (length b) dp
     \<and> (\<forall>i \<le> length a. \<forall>j \<le> length b. done i j \<longrightarrow> dp ! i ! j = lev_rec a b i j)"

definition first_min :: "('a \<Rightarrow> nat) \<Rightarrow> 'a list \<Rightarrow> 'a \<Rightarrow> bool" where
  "first_min f xs c \<longleftrightarrow>
     (\<exists>ys zs. xs = ys @ c # zs \<and> (\<forall>y \<in> set ys. f c < f y) \<and> (\<forall>z \<in> set zs. f c \<le> f z))"

definition hits_of :: "string list \<Rightarrow> (nat \<times> string) list \<Rightarrow> hit list" where
  "hits_of lexicon ps =
     map (\<lambda>(i, token). \<lparr>word = the (lexicon_match token lexicon), idx = int i\<rparr>)
       (filter (\<lambda>(i, token). truthy (lexicon_match token lexicon)) ps)"


text \<open>
  A string whose whitespace characters are single spaces, none next to another; and such a
  string that neither starts nor ends with a space.
\<close>

fun collapsed :: "string \<Rightarrow> bool" where
  "collapsed [] = True"
| "collapsed [c] = (is_space c \<longrightarrow> c = CHR '' '')"
| "collapsed (c # d # cs) = ((is_space c \<longrightarrow> c = CHR '' '' \<and> \<not> is_space d) \<and> collapsed (d # cs))"

fun canon :: "string \<Rightarrow> bool" where
  "canon [] = True"
| "canon [c] = (\<not> is_space c)"
| "canon (c # d # cs) =
     (\<not> is_space c \<and> (if is_space d then d = CHR '' '' \<and> cs \<noteq> [] \<and> canon cs else canon (d # cs)))"



section \<open>Properties\<close>

subsection \<open>Rounding and score bounds\<close>

lemma round_half_even_bounds: "\<lfloor>y\<rfloor> \<le> round_half_even y \<and> round_half_even y \<le> \<lceil>y\<rceil>"
proof -
  have "y - of_int \<lfloor>y\<rfloor> \<noteq> 0 \<Longrightarrow> \<lfloor>y\<rfloor> + 1 \<le> \<lceil>y\<rceil>"
    by linarith
  moreover have "y - of_int \<lfloor>y\<rfloor> = 1 / 2 \<or> 1 / 2 < y - of_int \<lfloor>y\<rfloor> \<Longrightarrow> y - of_int \<lfloor>y\<rfloor> \<noteq> 0"
    by auto
  ultimately show ?thesis
    unfolding round_half_even_def Let_def by (auto simp: not_less)
qed

lemma round_half_even_of_int: "round_half_even (of_int k) = k"
  by (simp add: round_half_even_def)

lemma round_half_even_mono:
  assumes "x \<le> y" shows "round_half_even x \<le> round_half_even y"
proof (cases "\<lfloor>x\<rfloor> = \<lfloor>y\<rfloor>")
  case True
  then show ?thesis using assms
    unfolding round_half_even_def Let_def by (auto simp: not_less)
next
  case False
  then have "\<lfloor>x\<rfloor> < \<lfloor>y\<rfloor>" using assms floor_mono [of x y] by linarith
  then have "\<lceil>x\<rceil> \<le> \<lfloor>y\<rfloor>" by linarith
  then show ?thesis
    using round_half_even_bounds [of x] round_half_even_bounds [of y] by linarith
qed

lemma py_round_mono: "x \<le> y \<Longrightarrow> py_round x n \<le> py_round y n"
  unfolding py_round_def
  by (intro divide_right_mono iffD2 [OF of_int_le_iff] round_half_even_mono mult_right_mono) simp_all

lemma py_round_of_int: "py_round (of_int k) n = of_int k"
proof -
  have "of_int k * (10::real) ^ n = of_int (k * 10 ^ n)" by simp
  then show ?thesis unfolding py_round_def
    by (simp only: round_half_even_of_int) simp
qed

lemma py_round_ge: "of_int k \<le> x \<Longrightarrow> of_int k \<le> py_round x n"
  using py_round_mono [of "of_int k" x n] by (simp add: py_round_of_int)

lemma py_round_le: "x \<le> of_int k \<Longrightarrow> py_round x n \<le> of_int k"
  using py_round_mono [of x "of_int k" n] by (simp add: py_round_of_int)

lemma py_round_min: "py_round (min (of_int k) x) n = min (of_int k) (py_round x n)"
proof (cases "of_int k \<le> x")
  case True
  then show ?thesis using py_round_ge [of k x n] by (simp add: min_def py_round_of_int)
next
  case False
  then have "x \<le> of_int k" by simp
  then show ?thesis using py_round_le [of x k n] by (simp add: min_def)
qed

lemma inner_fold_ge:
  "0 \<le> w \<Longrightarrow> s \<le> fold (\<lambda>t score. if \<bar>i - idx t\<bar> \<le> MAX_DISTANCE then score + w else score) ts (s::int)"
proof (induction ts arbitrary: s)
  case Nil
  then show ?case by simp
next
  case (Cons t ts)
  from Cons.IH [OF Cons.prems, of "if \<bar>i - idx t\<bar> \<le> MAX_DISTANCE then s + w else s"]
  show ?case using Cons.prems by (simp split: if_splits)
qed

lemma pattern_score_ge: "0 \<le> w \<Longrightarrow> s \<le> pattern_score w as ts s"
proof (induction as arbitrary: s)
  case Nil
  then show ?case by (simp add: pattern_score_def)
next
  case (Cons a as)
  have "s \<le> fold (\<lambda>t score. if \<bar>idx a - idx t\<bar> \<le> MAX_DISTANCE then score + w else score) ts s"
    using Cons.prems by (rule inner_fold_ge)
  also have "\<dots> \<le> pattern_score w as ts \<dots>"
    using Cons.prems by (rule Cons.IH)
  finally show ?case by (simp add: pattern_score_def)
qed

lemma keyword_score_range: "0 \<le> fst (keyword_score p) \<and> fst (keyword_score p) \<le> 5"
proof (cases "normalize p = []")
  case True
  then show ?thesis by (simp add: keyword_score_def)
next
  case False
  obtain acts sens safe where sc: "scan_tokens (py_split (normalize p)) = (acts, sens, safe)"
    by (cases "scan_tokens (py_split (normalize p))") auto
  have "0 \<le> pattern_score 3 acts sens 0" by (rule pattern_score_ge) simp
  also have "\<dots> \<le> pattern_score 1 acts safe \<dots>" by (rule pattern_score_ge) simp
  finally have "0 \<le> pattern_score 1 acts safe (pattern_score 3 acts sens 0)" .
  then show ?thesis using False sc by (simp add: keyword_score_def Let_def)
qed

lemma fuse_nonneg:
  assumes "0 \<le> kw" and "\<And>r. res = Inr r \<Longrightarrow> 0 \<le> ml_confidence r"
  shows "0 \<le> snd (snd (fuse kw res))"
  using assms by (cases res) (auto simp: fuse_def Let_def)

lemma fuse_override:
  assumes "0 \<le> kw" "res = Inr r" "ml_prediction r = ''MALICIOUS''" "1 / 2 \<le> ml_confidence r"
  shows "7 \<le> snd (snd (fuse kw res))"
  using assms by (auto simp: fuse_def Let_def)

lemma threatScore_analyze:
  "threatScore (analyze_prompt f prompt) =
     min 10 (py_round (snd (snd (fuse (fst (keyword_score (py_strip (case prompt of None \<Rightarrow> [] | Some s \<Rightarrow> s))))
        (f (py_strip (case prompt of None \<Rightarrow> [] | Some s \<Rightarrow> s)))))) 1)"
  by (simp add: analyze_prompt_def Let_def case_prod_beta)

lemma threatLevel_analyze:
  "threatLevel (analyze_prompt f prompt) =
     (let score = threatScore (analyze_prompt f prompt)
      in if score \<le> 2 then ''SAFE'' else if score \<le> 6 then ''MEDIUM'' else ''HIGH'')"
  by (simp add: analyze_prompt_def Let_def case_prod_beta)

lemma confidence_analyze:
  "confidence (analyze_prompt f prompt) =
     (let score = threatScore (analyze_prompt f prompt)
      in if 8 \<le> score then ''high'' else if 4 \<le> score then ''medium'' else ''low'')"
  by (simp add: analyze_prompt_def Let_def case_prod_beta)


lemma normalize_empty: "normalize [] = []"
  by (simp add: normalize_def py_lower_def sub_punct_def py_strip_def)

lemma keyword_score_empty: "keyword_score [] = (0, {}, {})"
  by (simp add: keyword_score_def normalize_empty)

lemma py_strip_empty: "py_strip [] = []"
  by (simp add: py_strip_def)

lemma py_round_examples: "py_round 7 n = 7" "py_round 2 n = 2" "py_round 0 n = 0"
  using py_round_of_int [of 7 n] py_round_of_int [of 2 n] py_round_of_int [of 0 n] by simp_all


subsection \<open>The classifier adapter returns a result\<close>

lemma predict_body_label:
  "predict_body m v prompt = Inr r \<Longrightarrow>
     ml_prediction r = ''SAFE'' \<or> ml_prediction r = ''MALICIOUS''"
  by (auto simp: predict_body_def Let_def split: sum.splits if_splits)

lemma py_index_mem: "py_index xs i = Inr x \<Longrightarrow> x \<in> set xs"
  by (auto simp: py_index_def split: if_splits)

lemma predict_body_confidence:
  assumes "predict_body m v prompt = Inr r"
    and "\<forall>X ps. predict_proba m X = Inr ps \<longrightarrow> (\<forall>row \<in> set ps. \<forall>q \<in> set row. 0 \<le> q \<and> q \<le> 1)"
  shows "0 \<le> ml_confidence r \<and> ml_confidence r \<le> 1"
proof -
  from assms(1) obtain X ps row pred c where
    pp: "predict_proba m X = Inr ps" and row: "py_index ps 0 = Inr row"
    and c: "py_index row pred = Inr c" and r: "ml_confidence r = py_round c 4"
    by (auto simp: predict_body_def Let_def split: sum.splits)
  have "row \<in> set ps" using row by (rule py_index_mem)
  moreover have "c \<in> set row" using c by (rule py_index_mem)
  ultimately have "of_int 0 \<le> c" "c \<le> of_int 1" using assms(2) pp by auto
  then show ?thesis
    using r py_round_ge [of 0 c 4] py_round_le [of c 1 4] by simp
qed

lemma py_round_four_fifths: "py_round (4 / 5) 4 = 4 / 5"
  by (simp add: py_round_def round_half_even_def)


subsection \<open>Stripping and lower case\<close>

lemma is_space_lower_char: "is_space (lower_char c) = is_space c"
  unfolding is_space_def lower_char_def Let_def by (auto simp: of_char_of)

lemma lower_char_idem: "lower_char (lower_char c) = lower_char c"
  unfolding lower_char_def Let_def by (auto simp: of_char_of)

lemma is_space_not_word: "is_space c \<Longrightarrow> \<not> is_word c"
  unfolding is_space_def is_word_def is_alnum_def Let_def by auto

lemma py_lower_idem: "py_lower (py_lower s) = py_lower s"
  by (simp add: py_lower_def lower_char_idem)

lemma py_strip_lower: "py_strip (py_lower s) = py_lower (py_strip s)"
proof -
  have "is_space \<circ> lower_char = is_space" by (auto simp: is_space_lower_char)
  then show ?thesis
    by (simp add: py_strip_def py_lower_def dropWhile_map rev_map)
qed

lemma dropWhile_all: "\<forall>x \<in> set xs. P x \<Longrightarrow> dropWhile P xs = []"
  by (induction xs) auto

lemma dropWhile_all_append: "\<forall>x \<in> set xs. P x \<Longrightarrow> dropWhile P (xs @ ys) = dropWhile P ys"
  by (induction xs) auto

lemma dropWhile_snoc_keep: "\<not> P y \<Longrightarrow> \<exists>zs. dropWhile P (us @ [y]) = zs @ [y]"
  by (induction us) auto

lemma strip_right_head:
  assumes "\<not> P y"
  shows "\<exists>zs. rev (dropWhile P (rev (y # ys))) = y # zs"
proof -
  obtain zs where "dropWhile P (rev ys @ [y]) = zs @ [y]"
    using dropWhile_snoc_keep [of P y "rev ys"] assms by blast
  then show ?thesis by simp
qed

lemma strip_left_right:
  "dropWhile P (rev (dropWhile P (rev xs))) = rev (dropWhile P (rev (dropWhile P xs)))"
proof (cases "\<forall>x \<in> set xs. P x")
  case True
  then have "dropWhile P xs = []" and "dropWhile P (rev xs) = []"
    by (simp_all add: dropWhile_all)
  then show ?thesis by (simp only: rev.simps dropWhile.simps)
next
  case False
  define t where "t = takeWhile P xs"
  define d where "d = dropWhile P xs"
  have xs: "xs = t @ d" by (simp add: t_def d_def)
  have t: "\<forall>x \<in> set t. P x" unfolding t_def by (auto dest: set_takeWhileD)
  from False have "d \<noteq> []" unfolding d_def by (simp add: dropWhile_eq_Nil_conv)
  then obtain y ys where d: "d = y # ys" by (cases d) auto
  have y: "\<not> P y" using d hd_dropWhile [of P xs] unfolding d_def by force
  obtain zs where zs: "rev (dropWhile P (rev d)) = y # zs"
    using strip_right_head [of P y ys] y d by blast
  have "y \<in> set (rev d)" using d by simp
  then have "dropWhile P (rev d @ rev t) = dropWhile P (rev d) @ rev t"
    using y by (rule dropWhile_append1)
  then have "rev (dropWhile P (rev xs)) = t @ rev (dropWhile P (rev d))"
    by (simp add: xs)
  then have "dropWhile P (rev (dropWhile P (rev xs))) = dropWhile P (rev (dropWhile P (rev d)))"
    using t by (simp add: dropWhile_all_append)
  also have "\<dots> = rev (dropWhile P (rev d))"
    using zs y by simp
  finally show ?thesis by (simp add: d_def)
qed

lemma py_strip_idem: "py_strip (py_strip s) = py_strip s"
  unfolding py_strip_def by (simp add: strip_left_right)

lemma py_strip_all_space: "\<forall>c \<in> set s. is_space c \<Longrightarrow> py_strip s = []"
  by (simp add: py_strip_def dropWhile_all)

lemma py_strip_pad:
  assumes "\<forall>c \<in> set l. is_space c" "\<forall>c \<in> set r. is_space c"
  shows "py_strip (l @ s @ r) = py_strip s"
proof (cases "\<forall>c \<in> set s. is_space c")
  case True
  then have "\<forall>c \<in> set (l @ s @ r). is_space c" using assms by auto
  then show ?thesis using True by (simp only: py_strip_all_space)
next
  case False
  then obtain x where x: "x \<in> set s" "\<not> is_space x" by blast
  have "dropWhile is_space (l @ s @ r) = dropWhile is_space (s @ r)"
    using assms(1) by (simp add: dropWhile_all_append)
  also have "\<dots> = dropWhile is_space s @ r"
    using x by (rule dropWhile_append1)
  finally have "rev (dropWhile is_space (l @ s @ r)) = rev r @ rev (dropWhile is_space s)"
    by simp
  moreover have "dropWhile is_space (rev r @ rev (dropWhile is_space s))
      = dropWhile is_space (rev (dropWhile is_space s))"
    using assms(2) by (simp add: dropWhile_all_append)
  ultimately show ?thesis by (simp add: py_strip_def)
qed


subsection \<open>Reading a report\<close>

lemma keyword_only_score:
  assumes "\<forall>r. predict_fn (py_strip (case prompt of None \<Rightarrow> [] | Some s \<Rightarrow> s)) = Inr r
             \<longrightarrow> ml_prediction r \<noteq> ''MALICIOUS''"
  shows "threatScore (analyze_prompt predict_fn prompt)
           = of_int (fst (keyword_score (py_strip (case prompt of None \<Rightarrow> [] | Some s \<Rightarrow> s))))"
proof -
  define p where "p = py_strip (case prompt of None \<Rightarrow> [] | Some s \<Rightarrow> s)"
  define kw where "kw = fst (keyword_score p)"
  have "snd (snd (fuse kw (predict_fn p))) = of_int kw"
    using assms by (cases "predict_fn p") (auto simp: fuse_def Let_def p_def)
  moreover have "kw \<le> 5" using keyword_score_range [of p] by (simp add: kw_def)
  then have "min 10 (real_of_int kw) = of_int kw" by simp
  ultimately show ?thesis
    by (simp add: threatScore_analyze py_round_of_int p_def [symmetric] kw_def [symmetric])
qed

lemma detected_analyze:
  "detectedActions (analyze_prompt f prompt)
     = fst (snd (keyword_score (py_strip (case prompt of None \<Rightarrow> [] | Some s \<Rightarrow> s))))"
  "detectedTargets (analyze_prompt f prompt)
     = snd (snd (keyword_score (py_strip (case prompt of None \<Rightarrow> [] | Some s \<Rightarrow> s))))"
  by (simp_all add: analyze_prompt_def Let_def case_prod_beta)

lemma blank_prompt_strip:
  assumes "prompt = None \<or> (\<exists>s. prompt = Some s \<and> (\<forall>c \<in> set s. is_space c))"
  shows "py_strip (case prompt of None \<Rightarrow> [] | Some s \<Rightarrow> s) = []"
  using assms by (auto simp: py_strip_all_space py_strip_empty)


subsection \<open>The prompt "How to hack a password?"\<close>

lemma ex_strip: "py_strip ''How to hack a password?'' = ''How to hack a password?''"
  by code_simp

lemma ex_normalize: "normalize ''How to hack a password?'' = ''how to hack a password''"
  by code_simp

lemma ex_tokens: "py_split ''how to hack a password'' = [''how'', ''to'', ''hack'', ''a'', ''password'']"
  by code_simp

lemma ex_intent: "has_intent_phrase ''how to hack a password''"
  by code_simp

lemma ex_scan:
  "scan_tokens [''how'', ''to'', ''hack'', ''a'', ''password'']
     = ([\<lparr>word = ''hack'', idx = 2\<rparr>], [\<lparr>word = ''password'', idx = 4\<rparr>], [])"
  by code_simp

lemma ex_pattern:
  "pattern_score 3 [\<lparr>word = ''hack'', idx = 2\<rparr>] [\<lparr>word = ''password'', idx = 4\<rparr>] 0 = 3"
  "pattern_score 1 [\<lparr>word = ''hack'', idx = 2\<rparr>] [] 3 = 3"
  by (simp_all add: pattern_score_def MAX_DISTANCE_def)

lemma ex_keyword: "keyword_score ''How to hack a password?'' = (4, {''hack''}, {''password''})"
  by (simp add: keyword_score_def ex_normalize ex_tokens ex_intent ex_scan ex_pattern)


subsection \<open>What a report depends on\<close>

lemma keyword_score_cong: "py_lower p = py_lower q \<Longrightarrow> keyword_score p = keyword_score q"
  by (simp add: keyword_score_def normalize_def)

lemma predict_body_cong:
  "py_lower p = py_lower q \<Longrightarrow> predict_body m v (Some p) = predict_body m v (Some q)"
  by (simp add: predict_body_def preprocess_def)

lemma predict_prompt_cong:
  "py_lower p = py_lower q \<Longrightarrow> predict_prompt mdl vec (Some p) = predict_prompt mdl vec (Some q)"
  by (simp add: predict_prompt_def predict_body_cong [of p q] split: option.splits)

lemma analyze_prompt_cong:
  assumes "keyword_score (py_strip s) = keyword_score (py_strip t)"
    and "f (py_strip s) = f (py_strip t)"
  shows "analyze_prompt f (Some s) = analyze_prompt f (Some t)"
  unfolding analyze_prompt_def option.case Let_def assms by (rule refl)

lemma analyze_cong:
  assumes "py_lower (py_strip s) = py_lower (py_strip t)"
  shows "analyze mdl vec (Some s) = analyze mdl vec (Some t)"
  unfolding analyze_def
  using assms by (intro analyze_prompt_cong keyword_score_cong predict_prompt_cong)

lemma upper_char_ascii:
  "is_ascii c \<Longrightarrow> \<exists>d. upper_char c = Some [d] \<and> lower_char d = lower_char c"
  unfolding is_ascii_def upper_char_def lower_char_def Let_def
  by (auto simp: of_char_of)

lemma py_upper_ascii:
  "\<forall>c \<in> set s. is_ascii c \<Longrightarrow> \<exists>u. py_upper s = Some u \<and> py_lower u = py_lower s"
proof (induction s)
  case Nil
  then show ?case by (simp add: py_lower_def)
next
  case (Cons c s)
  then obtain u where u: "py_upper s = Some u" "py_lower u = py_lower s" by auto
  from Cons.prems obtain d where d: "upper_char c = Some [d]" "lower_char d = lower_char c"
    using upper_char_ascii [of c] by auto
  show ?case using u d by (simp add: py_lower_def)
qed

lemma sharp_upper: "py_upper sharp_s_prompt = Some ''HASSK PASSWORD''"
  by code_simp

lemma sharp_strip: "py_strip sharp_s_prompt = sharp_s_prompt" "py_strip ''HASSK PASSWORD'' = ''HASSK PASSWORD''"
  by code_simp+

lemma sharp_kw: "fst (keyword_score sharp_s_prompt) = 3"
  by code_simp

lemma sharp_kw_upper: "fst (keyword_score ''HASSK PASSWORD'') = 0"
  by code_simp

lemma analyze_no_model:
  "threatScore (analyze (None :: unit model option) None (Some s)) = of_int (fst (keyword_score (py_strip s)))"
  unfolding analyze_def
  using keyword_only_score [of "\<lambda>p. predict_prompt (None :: unit model option) None (Some p)" "Some s"]
  by (simp add: predict_prompt_def SAFE_DEFAULT_def)


subsection \<open>What survives normalization\<close>

lemma set_py_strip: "set (py_strip s) \<subseteq> set s"
proof -
  have "set (py_strip s) \<subseteq> set (dropWhile is_space s)"
    unfolding py_strip_def using set_dropWhileD [of _ is_space "rev (dropWhile is_space s)"] by auto
  then show ?thesis using set_dropWhileD [of _ is_space s] by auto
qed

lemma set_sub_spaces:
  "c \<in> set (sub_spaces s) \<Longrightarrow> c = CHR '' '' \<or> (c \<in> set s \<and> \<not> is_space c)"
proof (induction s rule: sub_spaces.induct)
  case 1
  then show ?case by simp
next
  case (2 d ds)
  show ?case
  proof (cases "is_space d")
    case True
    with 2 show ?thesis by (auto dest: set_dropWhileD)
  next
    case False
    with 2 show ?thesis by auto
  qed
qed

lemma py_split_tokens:
  "t \<in> set (py_split s) \<Longrightarrow> t \<noteq> [] \<and> set t \<subseteq> set s \<and> (\<forall>c \<in> set t. \<not> is_space c)"
proof (induction s arbitrary: t rule: py_split.induct)
  case (1 s)
  show ?case
  proof (cases "dropWhile is_space s")
    case Nil
    have "py_split s = []" unfolding py_split.simps [of s] Nil by simp
    with 1(2) show ?thesis by simp
  next
    case (Cons c cs)
    have ps: "py_split s = (c # takeWhile (\<lambda>x. \<not> is_space x) cs)
        # py_split (dropWhile (\<lambda>x. \<not> is_space x) cs)"
      unfolding py_split.simps [of s] Cons by simp
    have c: "\<not> is_space c" using hd_dropWhile [of is_space s] Cons by simp
    have sub: "set (c # cs) \<subseteq> set s"
      using set_dropWhileD [of _ is_space s] Cons by auto
    from 1(2) ps consider "t = c # takeWhile (\<lambda>x. \<not> is_space x) cs"
      | "t \<in> set (py_split (dropWhile (\<lambda>x. \<not> is_space x) cs))" by auto
    then show ?thesis
    proof cases
      case 1
      have "set (takeWhile (\<lambda>x. \<not> is_space x) cs) \<subseteq> set cs"
        by (auto dest: set_takeWhileD)
      moreover have "\<forall>x \<in> set (takeWhile (\<lambda>x. \<not> is_space x) cs). \<not> is_space x"
        by (auto dest: set_takeWhileD)
      ultimately show ?thesis using 1 c sub by auto
    next
      case 2
      have "t \<noteq> [] \<and> set t \<subseteq> set (dropWhile (\<lambda>x. \<not> is_space x) cs) \<and> (\<forall>c \<in> set t. \<not> is_space c)"
        using "1.IH" [OF Cons 2] .
      moreover have "set (dropWhile (\<lambda>x. \<not> is_space x) cs) \<subseteq> set cs"
        by (auto dest: set_dropWhileD)
      ultimately show ?thesis using sub by auto
    qed
  qed
qed

lemma normalize_chars:
  assumes "c \<in> set (normalize p)" "\<not> is_space c"
  shows "is_word c \<and> lower_char c = c \<and> c \<in> lower_char ` set p"
proof -
  from assms(1) have "c \<in> set (sub_spaces (sub_punct (py_lower p)))"
    unfolding normalize_def using set_py_strip by blast
  moreover have sp: "is_space CHR '' ''" by (simp add: is_space_def)
  then have "c \<noteq> CHR '' ''" using assms(2) by auto
  ultimately have "c \<in> set (sub_punct (py_lower p))"
    using set_sub_spaces [of c "sub_punct (py_lower p)"] by blast
  then obtain d where d: "d \<in> set (py_lower p)"
      "c = (if \<not> is_word d \<and> \<not> is_space d then CHR '' '' else d)"
    by (auto simp: sub_punct_def)
  have cd: "c = d" "is_word d" using d(2) assms(2) sp by (auto split: if_splits)
  from d(1) obtain e where "e \<in> set p" "d = lower_char e" by (auto simp: py_lower_def)
  then show ?thesis using cd by (auto simp: lower_char_idem)
qed

lemma underscore_tokens: "py_split (normalize (py_strip ''a_b'')) = [''a_b'']"
  by code_simp

lemma witness_tokens: "py_split (normalize (py_strip ''  Hack_it, NOW!  '')) = [''hack_it'', ''now'']"
  by code_simp


subsection \<open>The table of \<^verbatim>\<open>_levenshtein\<close> holds the edit distance\<close>

lemma shaped_tbl_set: "shaped m n dp \<Longrightarrow> shaped m n (tbl_set dp i j v)"
proof (cases "i < length dp")
  case True
  assume "shaped m n dp"
  then show ?thesis using True
    by (auto simp: shaped_def tbl_set_def nth_list_update)
next
  case False
  assume "shaped m n dp"
  then show ?thesis using False
    by (simp add: shaped_def tbl_set_def)
qed

lemma tbl_set_get:
  "shaped m n dp \<Longrightarrow> i \<le> m \<Longrightarrow> j \<le> n \<Longrightarrow> i' \<le> m \<Longrightarrow>
     tbl_set dp i j v ! i' ! j' = (if i' = i \<and> j' = j then v else dp ! i' ! j')"
  by (auto simp: shaped_def tbl_set_def nth_list_update)

lemma fold_upt_invariant:
  assumes "P lo s"
    and "\<And>k s. lo \<le> k \<Longrightarrow> k < hi \<Longrightarrow> P k s \<Longrightarrow> P (Suc k) (f k s)"
    and "lo \<le> hi"
  shows "P hi (fold f [lo..<hi] s)"
  using assms(3, 2)
proof (induction hi)
  case 0
  then show ?case using assms(1) by simp
next
  case (Suc hi)
  show ?case
  proof (cases "lo = Suc hi")
    case True
    then show ?thesis using assms(1) by simp
  next
    case False
    then have le: "lo \<le> hi" using Suc.prems(1) by simp
    have "P hi (fold f [lo..<hi] s)"
      using le Suc.prems(2) by (intro Suc.IH) auto
    then have "P (Suc hi) (f hi (fold f [lo..<hi] s))"
      using le by (intro Suc.prems(2)) auto
    then show ?thesis using le by simp
  qed
qed

lemma filled_set:
  assumes "filled a b done dp" "i \<le> length a" "j \<le> length b" "v = lev_rec a b i j"
    and "\<And>i' j'. done' i' j' \<Longrightarrow> done i' j' \<or> (i' = i \<and> j' = j)"
  shows "filled a b done' (tbl_set dp i j v)"
  unfolding filled_def
proof (intro conjI allI impI)
  show "shaped (length a) (length b) (tbl_set dp i j v)"
    using assms(1) by (simp add: filled_def shaped_tbl_set)
next
  fix i' j'
  assume "i' \<le> length a" "j' \<le> length b" "done' i' j'"
  then show "tbl_set dp i j v ! i' ! j' = lev_rec a b i' j'"
    using assms tbl_set_get [of "length a" "length b" dp i j i' v j']
    by (auto simp: filled_def)
qed

lemma filled_weaken:
  assumes "filled a b done dp"
    and "\<And>i j. i \<le> length a \<Longrightarrow> j \<le> length b \<Longrightarrow> done' i j \<Longrightarrow> done i j"
  shows "filled a b done' dp"
  using assms unfolding filled_def by blast

lemma filled_init: "filled a b (\<lambda>i j. False) (replicate (length a + 1) (replicate (length b + 1) 0))"
proof -
  have "replicate (length a + 1) (replicate (length b + 1) (0::nat)) ! i = replicate (length b + 1) 0"
    if "i \<le> length a" for i
    using that by (intro nth_replicate) simp
  then show ?thesis
    unfolding filled_def shaped_def by (simp del: replicate.simps replicate_Suc)
qed

lemma lev_rec_col0: "lev_rec a b i 0 = i"
  by (cases i) simp_all

lemma filled_col0:
  assumes "filled a b (\<lambda>i j. False) dp"
  shows "filled a b (\<lambda>i j. j = 0) (fold (\<lambda>i dp. tbl_set dp i 0 i) [0..<length a + 1] dp)"
proof -
  have "filled a b (\<lambda>i j. j = 0 \<and> i < length a + 1) (fold (\<lambda>i dp. tbl_set dp i 0 i) [0..<length a + 1] dp)"
  proof (rule fold_upt_invariant [where P = "\<lambda>k dp. filled a b (\<lambda>i j. j = 0 \<and> i < k) dp"])
    show "filled a b (\<lambda>i j. j = 0 \<and> i < 0) dp" using assms by simp
  next
    fix k s
    assume "k < length a + 1" "filled a b (\<lambda>i j. j = 0 \<and> i < k) s"
    then show "filled a b (\<lambda>i j. j = 0 \<and> i < Suc k) (tbl_set s k 0 k)"
      by (elim filled_set) (auto simp: lev_rec_col0)
  qed simp
  then show ?thesis by (rule filled_weaken) auto
qed

lemma filled_row0:
  assumes "filled a b (\<lambda>i j. j = 0) dp"
  shows "filled a b (\<lambda>i j. i = 0 \<or> j = 0) (fold (\<lambda>j dp. tbl_set dp 0 j j) [0..<length b + 1] dp)"
proof -
  have "filled a b (\<lambda>i j. j = 0 \<or> (i = 0 \<and> j < length b + 1)) (fold (\<lambda>j dp. tbl_set dp 0 j j) [0..<length b + 1] dp)"
  proof (rule fold_upt_invariant [where P = "\<lambda>k dp. filled a b (\<lambda>i j. j = 0 \<or> (i = 0 \<and> j < k)) dp"])
    show "filled a b (\<lambda>i j. j = 0 \<or> (i = 0 \<and> j < 0)) dp" using assms by simp
  next
    fix k s
    assume "k < length b + 1" "filled a b (\<lambda>i j. j = 0 \<or> (i = 0 \<and> j < k)) s"
    then show "filled a b (\<lambda>i j. j = 0 \<or> (i = 0 \<and> j < Suc k)) (tbl_set s 0 k k)"
      by (elim filled_set) auto
  qed simp
  then show ?thesis by (rule filled_weaken) auto
qed

lemma filled_cell:
  assumes "filled a b (\<lambda>i' j'. i' < i \<or> j' = 0 \<or> (i' = i \<and> j' < j)) dp"
    and "1 \<le> i" "i \<le> length a" "1 \<le> j" "j \<le> length b"
  shows "filled a b (\<lambda>i' j'. i' < i \<or> j' = 0 \<or> (i' = i \<and> j' < Suc j)) (lev_cell a b i j dp)"
proof -
  obtain i0 j0 where ij: "i = Suc i0" "j = Suc j0"
    using assms(2, 4) by (cases i; cases j) auto
  have c1: "dp ! i0 ! Suc j0 = lev_rec a b i0 (Suc j0)"
    and c2: "dp ! Suc i0 ! j0 = lev_rec a b (Suc i0) j0"
    and c3: "dp ! i0 ! j0 = lev_rec a b i0 j0"
    using assms by (auto simp: filled_def ij)
  show ?thesis
    unfolding lev_cell_def Let_def
    using assms(1, 3, 5)
    by (elim filled_set) (auto simp: c1 c2 c3 ij)
qed

lemma filled_row:
  assumes "filled a b (\<lambda>i' j'. i' < i \<or> j' = 0) dp" "1 \<le> i" "i \<le> length a"
  shows "filled a b (\<lambda>i' j'. i' < Suc i \<or> j' = 0) (fold (lev_cell a b i) [1..<length b + 1] dp)"
proof -
  have "filled a b (\<lambda>i' j'. i' < i \<or> j' = 0 \<or> (i' = i \<and> j' < length b + 1))
          (fold (lev_cell a b i) [1..<length b + 1] dp)"
  proof (rule fold_upt_invariant
      [where P = "\<lambda>k dp. filled a b (\<lambda>i' j'. i' < i \<or> j' = 0 \<or> (i' = i \<and> j' < k)) dp"])
    show "filled a b (\<lambda>i' j'. i' < i \<or> j' = 0 \<or> (i' = i \<and> j' < 1)) dp"
      using assms(1) by (auto simp: filled_def)
  next
    fix k s
    assume "1 \<le> k" "k < length b + 1"
      "filled a b (\<lambda>i' j'. i' < i \<or> j' = 0 \<or> (i' = i \<and> j' < k)) s"
    then show "filled a b (\<lambda>i' j'. i' < i \<or> j' = 0 \<or> (i' = i \<and> j' < Suc k)) (lev_cell a b i k s)"
      using assms(2, 3) by (intro filled_cell) auto
  qed simp
  then show ?thesis by (rule filled_weaken) auto
qed

lemma filled_table: "filled a b (\<lambda>i j. True) (lev_table a b)"
proof -
  define dp0 where "dp0 = fold (\<lambda>j dp. tbl_set dp 0 j j) [0..<length b + 1]
     (fold (\<lambda>i dp. tbl_set dp i 0 i) [0..<length a + 1]
        (replicate (length a + 1) (replicate (length b + 1) 0)))"
  have dp0: "filled a b (\<lambda>i j. i = 0 \<or> j = 0) dp0"
    unfolding dp0_def by (intro filled_row0 filled_col0 filled_init)
  have "filled a b (\<lambda>i' j'. i' < length a + 1 \<or> j' = 0)
      (fold (\<lambda>i dp. fold (lev_cell a b i) [1..<length b + 1] dp) [1..<length a + 1] dp0)"
  proof (rule fold_upt_invariant [where P = "\<lambda>k dp. filled a b (\<lambda>i' j'. i' < k \<or> j' = 0) dp"])
    show "filled a b (\<lambda>i' j'. i' < 1 \<or> j' = 0) dp0"
      using dp0 by (auto simp: filled_def)
  next
    fix k s
    assume "1 \<le> k" "k < length a + 1" "filled a b (\<lambda>i' j'. i' < k \<or> j' = 0) s"
    then show "filled a b (\<lambda>i' j'. i' < Suc k \<or> j' = 0) (fold (lev_cell a b k) [1..<length b + 1] s)"
      by (intro filled_row) auto
  qed simp
  then have "filled a b (\<lambda>i j. True)
      (fold (\<lambda>i dp. fold (lev_cell a b i) [1..<length b + 1] dp) [1..<length a + 1] dp0)"
    by (rule filled_weaken) auto
  then show ?thesis
    unfolding lev_table_def Let_def dp0_def .
qed

lemma levenshtein_edit_distance: "levenshtein a b = edit_distance a b"
  using filled_table [of a b] by (simp add: filled_def levenshtein_def edit_distance_def)


subsection \<open>The loop of \<^verbatim>\<open>_closest_match\<close>\<close>

lemma lev_rec_diag: "lev_rec a a i i = 0"
  by (induction i) simp_all

lemma edit_distance_same: "edit_distance a a = 0"
  by (simp add: edit_distance_def lev_rec_diag)

lemma find_first:
  "\<forall>y \<in> set ys. \<not> P y \<Longrightarrow> P c \<Longrightarrow> find P (ys @ c # zs) = Some c"
  by (induction ys) auto

lemma find_none: "\<forall>y \<in> set ys. \<not> P y \<Longrightarrow> find P ys = None"
  by (induction ys) auto

lemma first_min_le: "first_min f xs c \<Longrightarrow> x \<in> set xs \<Longrightarrow> f c \<le> f x"
  unfolding first_min_def by (auto simp: less_imp_le)

lemma first_min_mem: "first_min f xs c \<Longrightarrow> c \<in> set xs"
  unfolding first_min_def by auto

lemma first_min_snoc_keep: "first_min f xs c \<Longrightarrow> f c \<le> f x \<Longrightarrow> first_min f (xs @ [x]) c"
  unfolding first_min_def
proof (elim exE conjE)
  fix ys zs
  assume "xs = ys @ c # zs" "\<forall>y \<in> set ys. f c < f y" "\<forall>z \<in> set zs. f c \<le> f z" "f c \<le> f x"
  then have "xs @ [x] = ys @ c # (zs @ [x]) \<and> (\<forall>y \<in> set ys. f c < f y)
      \<and> (\<forall>z \<in> set (zs @ [x]). f c \<le> f z)"
    by auto
  then show "\<exists>ys zs. xs @ [x] = ys @ c # zs \<and> (\<forall>y \<in> set ys. f c < f y) \<and> (\<forall>z \<in> set zs. f c \<le> f z)"
    by blast
qed

lemma first_min_snoc_new: "\<forall>y \<in> set xs. f x < f y \<Longrightarrow> first_min f (xs @ [x]) x"
  unfolding first_min_def by (intro exI [of _ xs] exI [of _ "[]"]) simp

lemma closest_fold:
  "case fold (closest_step token d) xs (None, \<infinity>) of
     (None, bd) \<Rightarrow> bd = \<infinity> \<and> (\<forall>x \<in> set xs. d < levenshtein token x)
   | (Some c, bd) \<Rightarrow> bd = enat (levenshtein token c) \<and> levenshtein token c \<le> d
        \<and> first_min (levenshtein token) xs c"
proof (induction xs rule: rev_induct)
  case Nil
  then show ?case by simp
next
  case (snoc x xs)
  obtain best bd where st: "fold (closest_step token d) xs (None, \<infinity>) = (best, bd)"
    by (cases "fold (closest_step token d) xs (None, \<infinity>)") auto
  have step: "fold (closest_step token d) (xs @ [x]) (None, \<infinity>) = closest_step token d x (best, bd)"
    by (simp add: st)
  show ?case
  proof (cases best)
    case None
    with snoc.IH st have bd: "bd = \<infinity>" and all: "\<forall>y \<in> set xs. d < levenshtein token y" by auto
    show ?thesis
    proof (cases "levenshtein token x \<le> d")
      case True
      then have "\<forall>y \<in> set xs. levenshtein token x < levenshtein token y" using all by auto
      then have "first_min (levenshtein token) (xs @ [x]) x" by (rule first_min_snoc_new)
      then show ?thesis unfolding step using True by (simp add: None bd closest_step_def)
    next
      case False
      then show ?thesis unfolding step using all by (simp add: None bd closest_step_def)
    qed
  next
    case (Some c)
    with snoc.IH st have bd: "bd = enat (levenshtein token c)" and cd: "levenshtein token c \<le> d"
      and fm: "first_min (levenshtein token) xs c" by auto
    show ?thesis
    proof (cases "levenshtein token x \<le> d \<and> levenshtein token x < levenshtein token c")
      case True
      then have "\<forall>y \<in> set xs. levenshtein token x < levenshtein token y"
        using first_min_le [OF fm] by (meson less_le_trans)
      then have "first_min (levenshtein token) (xs @ [x]) x" by (rule first_min_snoc_new)
      then show ?thesis unfolding step using True by (simp add: Some bd closest_step_def)
    next
      case False
      then have "levenshtein token c \<le> levenshtein token x" using cd by auto
      then have "first_min (levenshtein token) (xs @ [x]) c"
        using fm by (intro first_min_snoc_keep)
      then show ?thesis unfolding step using False cd by (auto simp: Some bd closest_step_def)
    qed
  qed
qed

lemma closest_match_None:
  "closest_match token lexicon d = None \<longleftrightarrow> (\<forall>c \<in> set lexicon. d < levenshtein token c)"
  using closest_fold [where token = token and d = d and xs = lexicon]
  unfolding closest_match_def
  by (cases "fold (closest_step token d) lexicon (None, \<infinity>)")
     (auto split: option.splits dest: first_min_mem simp: not_less [symmetric])

lemma closest_match_Some:
  "closest_match token lexicon d = Some c \<Longrightarrow>
     levenshtein token c \<le> d \<and> first_min (levenshtein token) lexicon c"
  using closest_fold [where token = token and d = d and xs = lexicon]
  unfolding closest_match_def
  by (cases "fold (closest_step token d) lexicon (None, \<infinity>)") (auto split: option.splits)

lemma first_min_find:
  assumes "first_min f xs c" "f c \<le> d"
  shows "find (\<lambda>x. f x \<le> d \<and> (\<forall>y \<in> set xs. f x \<le> f y)) xs = Some c"
proof -
  from assms(1) obtain ys zs where xs: "xs = ys @ c # zs"
    and ys: "\<forall>y \<in> set ys. f c < f y" and zs: "\<forall>z \<in> set zs. f c \<le> f z"
    unfolding first_min_def by blast
  have "\<forall>y \<in> set ys. \<not> (f y \<le> d \<and> (\<forall>y' \<in> set xs. f y \<le> f y'))"
    using ys xs by (auto simp: not_le)
  moreover have "f c \<le> d \<and> (\<forall>y' \<in> set xs. f c \<le> f y')"
    using assms first_min_le [OF assms(1)] by blast
  ultimately show ?thesis unfolding xs by (rule find_first)
qed

lemma closest_match_find:
  "closest_match token lexicon d =
     find (\<lambda>c. levenshtein token c \<le> d
               \<and> (\<forall>c' \<in> set lexicon. levenshtein token c \<le> levenshtein token c')) lexicon"
proof (cases "closest_match token lexicon d")
  case None
  then have "\<forall>c \<in> set lexicon. d < levenshtein token c" by (simp add: closest_match_None)
  then have "find (\<lambda>c. levenshtein token c \<le> d
               \<and> (\<forall>c' \<in> set lexicon. levenshtein token c \<le> levenshtein token c')) lexicon = None"
    by (intro find_none) (auto simp: not_le)
  then show ?thesis using None by simp
next
  case (Some c)
  then show ?thesis
    using closest_match_Some [OF Some] first_min_find by fastforce
qed

lemma typo_examples:
  "lexicon_match ''hack'' RISKY_ACTIONS = Some ''hack''"
  "lexicon_match ''hsck'' RISKY_ACTIONS = Some ''hack''"
  "lexicon_match ''hsxk'' RISKY_ACTIONS = None"
  "levenshtein ''hsck'' ''hack'' = 1"
  "levenshtein ''hsxk'' ''hack'' = 2"
  by code_simp+


subsection \<open>The loops of \<^verbatim>\<open>_keyword_score\<close>\<close>

lemma starts_with_iff: "starts_with s sub \<longleftrightarrow> (\<exists>q. s = sub @ q)"
  by (induction s sub rule: starts_with.induct) auto

lemma py_in_iff: "py_in sub s \<longleftrightarrow> contains s sub"
proof (induction s)
  case Nil
  then show ?case by (auto simp: contains_def)
next
  case (Cons c cs)
  have "contains (c # cs) sub \<longleftrightarrow> (\<exists>q. c # cs = sub @ q) \<or> contains cs sub"
  proof
    assume "contains (c # cs) sub"
    then obtain p q where pq: "c # cs = p @ sub @ q" unfolding contains_def by blast
    show "(\<exists>q. c # cs = sub @ q) \<or> contains cs sub"
    proof (cases p)
      case Nil
      then show ?thesis using pq by auto
    next
      case (Cons d p')
      then have "cs = p' @ sub @ q" using pq by simp
      then show ?thesis unfolding contains_def by blast
    qed
  next
    assume "(\<exists>q. c # cs = sub @ q) \<or> contains cs sub"
    then show "contains (c # cs) sub"
    proof
      assume "\<exists>q. c # cs = sub @ q"
      then obtain q where "c # cs = [] @ sub @ q" by auto
      then show ?thesis unfolding contains_def by blast
    next
      assume "contains cs sub"
      then obtain p q where "cs = p @ sub @ q" unfolding contains_def by blast
      then have "c # cs = (c # p) @ sub @ q" by simp
      then show ?thesis unfolding contains_def by blast
    qed
  qed
  then show ?case using Cons by (simp add: starts_with_iff)
qed

lemma inner_fold_count:
  "fold (\<lambda>t score. if \<bar>idx a - idx t\<bar> \<le> MAX_DISTANCE then score + w else score) ts s
     = s + w * int (length (filter (near a) ts))"
  by (induction ts arbitrary: s) (simp_all add: near_def MAX_DISTANCE_def algebra_simps)

lemma near_product_Cons:
  "length (filter (\<lambda>(a, t). near a t) (List.product (a # as) ts))
     = length (filter (near a) ts) + length (filter (\<lambda>(a, t). near a t) (List.product as ts))"
proof -
  have "filter (\<lambda>(a, t). near a t) (map (Pair a) ts) = map (Pair a) (filter (near a) ts)"
    by (induction ts) auto
  then show ?thesis by simp
qed

lemma pattern_score_count:
  "pattern_score w as ts s = s + w * int (length (filter (\<lambda>(a, t). near a t) (List.product as ts)))"
proof (induction as arbitrary: s)
  case Nil
  then show ?case by (simp add: pattern_score_def)
next
  case (Cons a as)
  have "pattern_score w (a # as) ts s
      = pattern_score w as ts (s + w * int (length (filter (near a) ts)))"
    by (simp add: pattern_score_def inner_fold_count)
  then show ?case
    by (simp only: Cons.IH near_product_Cons) (simp add: algebra_simps)
qed

lemma scan_step_eq:
  "scan_step (i, token) (A, B, C)
     = (append_hit (lexicon_match token RISKY_ACTIONS) (int i) A,
        append_hit (lexicon_match token SENSITIVE_TARGETS) (int i) B,
        append_hit (lexicon_match token SAFE_TARGETS) (int i) C)"
  by (simp add: scan_step_def)

lemma hits_of_Cons:
  "hits_of lexicon ((i, token) # ps)
     = append_hit (lexicon_match token lexicon) (int i) [] @ hits_of lexicon ps"
  by (simp add: hits_of_def append_hit_def)

lemma append_hit_append: "append_hit m i A = A @ append_hit m i []"
  by (simp add: append_hit_def)

lemma scan_fold:
  "fold scan_step ps (A, B, C)
     = (A @ hits_of RISKY_ACTIONS ps, B @ hits_of SENSITIVE_TARGETS ps, C @ hits_of SAFE_TARGETS ps)"
proof (induction ps arbitrary: A B C)
  case Nil
  then show ?case by (simp add: hits_of_def)
next
  case (Cons p ps)
  obtain i token where p: "p = (i, token)" by (cases p)
  have "fold scan_step (p # ps) (A, B, C)
      = fold scan_step ps
          (append_hit (lexicon_match token RISKY_ACTIONS) (int i) A,
           append_hit (lexicon_match token SENSITIVE_TARGETS) (int i) B,
           append_hit (lexicon_match token SAFE_TARGETS) (int i) C)"
    by (simp add: p scan_step_eq)
  also have "\<dots> = (append_hit (lexicon_match token RISKY_ACTIONS) (int i) A @ hits_of RISKY_ACTIONS ps,
           append_hit (lexicon_match token SENSITIVE_TARGETS) (int i) B @ hits_of SENSITIVE_TARGETS ps,
           append_hit (lexicon_match token SAFE_TARGETS) (int i) C @ hits_of SAFE_TARGETS ps)"
    by (rule Cons.IH)
  also have "\<dots> = (A @ hits_of RISKY_ACTIONS (p # ps), B @ hits_of SENSITIVE_TARGETS (p # ps),
           C @ hits_of SAFE_TARGETS (p # ps))"
    unfolding p hits_of_Cons
    using append_hit_append [of _ _ A] append_hit_append [of _ _ B] append_hit_append [of _ _ C]
    by simp
  finally show ?case .
qed

lemma scan_tokens_hits:
  "scan_tokens tokens
     = (spec_hits RISKY_ACTIONS tokens, spec_hits SENSITIVE_TARGETS tokens, spec_hits SAFE_TARGETS tokens)"
  by (simp add: scan_tokens_def scan_fold spec_hits_def hits_of_def)

lemma py_split_empty: "py_split [] = []"
  by (simp add: py_split.simps [of "[]"])

lemma has_intent_contains:
  "has_intent_phrase n \<longleftrightarrow> contains n ''how to'' \<or> contains n ''ways to'' \<or> contains n ''method to''"
  by (simp add: has_intent_phrase_def py_in_iff)

lemma window_examples:
  "fst (keyword_score ''hack qq qq password'') = 3"
  "fst (keyword_score ''hack qq qq qq password'') = 0"
  by code_simp+


subsection \<open>Tokens are the word runs of the lower-cased input\<close>

lemma runs_all: "\<forall>x \<in> set xs. P x \<Longrightarrow> runs P acc (xs @ ys) = runs P (acc @ xs) ys"
  by (induction xs arbitrary: acc) auto

lemma runs_break:
  "ys = [] \<or> \<not> P (hd ys) \<Longrightarrow> runs P acc ys = (if acc = [] then [] else [acc]) @ runs P [] ys"
  by (cases ys) auto

lemma runs_none: "\<forall>x \<in> set xs. \<not> P x \<Longrightarrow> runs P [] (xs @ ys) = runs P [] ys"
  by (induction xs) auto

lemma runs_none_end: "\<forall>x \<in> set ws. \<not> P x \<Longrightarrow> runs P acc ws = (if acc = [] then [] else [acc])"
proof (induction ws arbitrary: acc)
  case Nil
  then show ?case by simp
next
  case (Cons w ws)
  then have "runs P [] ws = []" by simp
  then show ?case using Cons.prems by simp
qed

lemma runs_trailing: "\<forall>x \<in> set ws. \<not> P x \<Longrightarrow> runs P acc (xs @ ws) = runs P acc xs"
proof (induction xs arbitrary: acc)
  case Nil
  then show ?case by (simp add: runs_none_end)
next
  case (Cons x xs)
  then show ?case by simp
qed

lemma runs_map:
  assumes "\<And>c. P (f c) = Q c" and "\<And>c. Q c \<Longrightarrow> f c = c"
  shows "runs P acc (map f t) = runs Q acc t"
  using assms by (induction t arbitrary: acc) auto

lemma py_split_runs: "py_split s = runs (\<lambda>c. \<not> is_space c) [] s"
proof (induction s rule: py_split.induct)
  case (1 s)
  have s: "s = takeWhile is_space s @ dropWhile is_space s" by simp
  have lead: "runs (\<lambda>c. \<not> is_space c) [] s = runs (\<lambda>c. \<not> is_space c) [] (dropWhile is_space s)"
    using runs_none [of "takeWhile is_space s" "\<lambda>c. \<not> is_space c" "dropWhile is_space s"]
    by (auto dest: set_takeWhileD)
  show ?case
  proof (cases "dropWhile is_space s")
    case Nil
    have "py_split s = []" unfolding py_split.simps [of s] Nil by simp
    then show ?thesis using lead Nil by simp
  next
    case (Cons c cs)
    define tk where "tk = takeWhile (\<lambda>x. \<not> is_space x) cs"
    define dr where "dr = dropWhile (\<lambda>x. \<not> is_space x) cs"
    have ps: "py_split s = (c # tk) # py_split dr"
      unfolding py_split.simps [of s] Cons tk_def dr_def by simp
    have c: "\<not> is_space c" using hd_dropWhile [of is_space s] Cons by simp
    have cs: "cs = tk @ dr" by (simp add: tk_def dr_def)
    have tk: "\<forall>x \<in> set tk. \<not> is_space x" unfolding tk_def by (auto dest: set_takeWhileD)
    have dr: "dr = [] \<or> \<not> (\<not> is_space (hd dr))"
      unfolding dr_def using hd_dropWhile [of "\<lambda>x. \<not> is_space x" cs] by auto
    have IH: "py_split dr = runs (\<lambda>c. \<not> is_space c) [] dr"
      unfolding dr_def using "1.IH" [OF Cons] .
    have "runs (\<lambda>c. \<not> is_space c) [] (c # cs) = runs (\<lambda>c. \<not> is_space c) [c] (tk @ dr)"
      using c by (simp add: cs)
    also have "\<dots> = runs (\<lambda>c. \<not> is_space c) (c # tk) dr"
      using runs_all [of tk "\<lambda>c. \<not> is_space c" "[c]" dr] tk by simp
    also have "\<dots> = (c # tk) # runs (\<lambda>c. \<not> is_space c) [] dr"
      using runs_break [of dr "\<lambda>c. \<not> is_space c" "c # tk"] dr by simp
    finally show ?thesis using lead Cons ps IH by simp
  qed
qed

lemma rev_strip_split: "xs = rev (dropWhile P (rev xs)) @ rev (takeWhile P (rev xs))"
proof -
  have "rev (dropWhile P (rev xs)) @ rev (takeWhile P (rev xs))
      = rev (takeWhile P (rev xs) @ dropWhile P (rev xs))"
    by (simp only: rev_append)
  also have "\<dots> = rev (rev xs)" by (simp only: takeWhile_dropWhile_id)
  finally show ?thesis by simp
qed

lemma py_strip_split:
  "\<exists>l r. s = l @ py_strip s @ r \<and> (\<forall>c \<in> set l. is_space c) \<and> (\<forall>c \<in> set r. is_space c)"
proof -
  define u where "u = dropWhile is_space s"
  have "s = takeWhile is_space s @ u" by (simp add: u_def)
  moreover have "u = py_strip s @ rev (takeWhile is_space (rev u))"
    using rev_strip_split [of u is_space] by (simp add: py_strip_def u_def)
  ultimately have "s = takeWhile is_space s @ py_strip s @ rev (takeWhile is_space (rev u))"
    by simp
  moreover have "\<forall>c \<in> set (takeWhile is_space s). is_space c" by (auto dest: set_takeWhileD)
  moreover have "\<forall>c \<in> set (rev (takeWhile is_space (rev u))). is_space c"
    by (auto dest: set_takeWhileD)
  ultimately show ?thesis by blast
qed

lemma runs_py_strip:
  assumes "\<And>c. is_space c \<Longrightarrow> \<not> P c"
  shows "runs P [] (py_strip s) = runs P [] s"
proof -
  obtain l r where s: "s = l @ py_strip s @ r"
    and l: "\<forall>c \<in> set l. is_space c" and r: "\<forall>c \<in> set r. is_space c"
    using py_strip_split by blast
  have "runs P [] (l @ py_strip s @ r) = runs P [] (py_strip s @ r)"
    using l assms by (intro runs_none) auto
  also have "\<dots> = runs P [] (py_strip s)"
    using r assms by (intro runs_trailing) auto
  finally show ?thesis using s by simp
qed

lemma not_space_blank: "is_space CHR '' ''"
  by (simp add: is_space_def)

lemma runs_sub_spaces:
  "runs (\<lambda>c. \<not> is_space c) acc (sub_spaces t) = runs (\<lambda>c. \<not> is_space c) acc t"
proof (induction t arbitrary: acc rule: sub_spaces.induct)
  case 1
  then show ?case by simp
next
  case (2 c cs)
  show ?case
  proof (cases "is_space c")
    case True
    have cs: "cs = takeWhile is_space cs @ dropWhile is_space cs" by simp
    have "runs (\<lambda>c. \<not> is_space c) [] cs = runs (\<lambda>c. \<not> is_space c) [] (dropWhile is_space cs)"
      using runs_none [of "takeWhile is_space cs" "\<lambda>c. \<not> is_space c" "dropWhile is_space cs"]
      by (auto dest: set_takeWhileD)
    then show ?thesis
      using True "2.IH"(1) [OF True, of "[]"] by (simp add: not_space_blank)
  next
    case False
    then show ?thesis using "2.IH"(2) [OF False] by simp
  qed
qed

lemma runs_sub_punct: "runs (\<lambda>c. \<not> is_space c) acc (sub_punct t) = runs is_word acc t"
  unfolding sub_punct_def
proof (rule runs_map)
  fix c
  show "(\<not> is_space (if \<not> is_word c \<and> \<not> is_space c then CHR '' '' else c)) = is_word c"
    using is_space_not_word [of c] by (auto simp: not_space_blank)
  show "is_word c \<Longrightarrow> (if \<not> is_word c \<and> \<not> is_space c then CHR '' '' else c) = c"
    by simp
qed

lemma runs_normalize: "runs (\<lambda>c. \<not> is_space c) [] (normalize p) = runs is_word [] (py_lower p)"
  unfolding normalize_def
  by (simp add: runs_py_strip runs_sub_spaces runs_sub_punct)

lemma tokens_word_runs: "py_split (normalize (py_strip s)) = word_runs (py_lower s)"
proof -
  have "py_split (normalize (py_strip s)) = runs is_word [] (py_lower (py_strip s))"
    by (simp add: py_split_runs runs_normalize)
  also have "\<dots> = runs is_word [] (py_strip (py_lower s))"
    by (simp add: py_strip_lower)
  also have "\<dots> = runs is_word [] (py_lower s)"
    using is_space_not_word by (intro runs_py_strip) auto
  finally show ?thesis by (simp add: word_runs_def)
qed

lemma collapsed_tl: "collapsed (c # r) \<Longrightarrow> collapsed r"
  by (cases r) simp_all

lemma collapsed_space_Cons:
  "is_space c \<Longrightarrow> collapsed (c # r) \<longleftrightarrow> c = CHR '' '' \<and> (r = [] \<or> \<not> is_space (hd r)) \<and> collapsed r"
  by (cases r) auto

lemma collapsed_word_Cons: "\<not> is_space c \<Longrightarrow> collapsed (c # r) \<longleftrightarrow> collapsed r"
  by (cases r) auto

lemma sub_spaces_hd:
  "t \<noteq> [] \<Longrightarrow> \<not> is_space (hd t) \<Longrightarrow> sub_spaces t \<noteq> [] \<and> hd (sub_spaces t) = hd t"
  by (cases t) auto

lemma sub_spaces_Nil: "sub_spaces t = [] \<longleftrightarrow> t = []"
  by (cases t) auto

lemma collapsed_sub_spaces: "collapsed (sub_spaces t)"
proof (induction t rule: sub_spaces.induct)
  case 1
  then show ?case by simp
next
  case (2 c cs)
  show ?case
  proof (cases "is_space c")
    case True
    define d where "d = dropWhile is_space cs"
    have IH: "collapsed (sub_spaces d)" unfolding d_def using "2.IH"(1) [OF True] .
    have "sub_spaces d = [] \<or> \<not> is_space (hd (sub_spaces d))"
    proof (cases "d = []")
      case True
      then show ?thesis by simp
    next
      case False
      then have "\<not> is_space (hd d)" unfolding d_def by (rule hd_dropWhile)
      then show ?thesis using sub_spaces_hd [OF False] by simp
    qed
    then have "collapsed (CHR '' '' # sub_spaces d)"
      using IH by (simp add: collapsed_space_Cons not_space_blank)
    then show ?thesis using True by (simp add: d_def)
  next
    case False
    then show ?thesis using "2.IH"(2) [OF False] by (simp add: collapsed_word_Cons)
  qed
qed

lemma collapsed_append: "collapsed (xs @ ys) \<Longrightarrow> collapsed xs \<and> collapsed ys"
proof (induction xs)
  case Nil
  then show ?case by simp
next
  case (Cons x xs)
  then have IH: "collapsed xs" "collapsed ys" using collapsed_tl [of x "xs @ ys"] by auto
  have "collapsed (x # xs)"
  proof (cases xs)
    case Nil
    then show ?thesis using Cons.prems by (cases ys) auto
  next
    case (Cons d ds)
    then show ?thesis using Cons.prems IH(1) by simp
  qed
  then show ?case using IH(2) by simp
qed

lemma py_strip_ends:
  assumes "py_strip t \<noteq> []"
  shows "\<not> is_space (hd (py_strip t)) \<and> \<not> is_space (last (py_strip t))"
proof
  have "py_strip t = dropWhile is_space (rev (dropWhile is_space (rev t)))"
    unfolding py_strip_def by (rule strip_left_right [symmetric])
  then show "\<not> is_space (hd (py_strip t))"
    using assms hd_dropWhile [of is_space "rev (dropWhile is_space (rev t))"] by simp
next
  define u where "u = dropWhile is_space (rev (dropWhile is_space t))"
  have m: "py_strip t = rev u" by (simp add: py_strip_def u_def)
  then have "u \<noteq> []" using assms by simp
  then have "\<not> is_space (hd u)" unfolding u_def by (rule hd_dropWhile)
  moreover have "last (rev u) = hd u" using \<open>u \<noteq> []\<close> by (simp add: last_rev)
  ultimately show "\<not> is_space (last (py_strip t))" using m by simp
qed

lemma collapsed_canon:
  "collapsed m \<Longrightarrow> m = [] \<or> (\<not> is_space (hd m) \<and> \<not> is_space (last m)) \<Longrightarrow> canon m"
proof (induction m rule: canon.induct)
  case 1
  then show ?case by simp
next
  case (2 c)
  then show ?case by simp
next
  case (3 c d cs)
  from "3.prems" have c: "\<not> is_space c" and l: "\<not> is_space (last (d # cs))"
    and col: "collapsed (d # cs)" by auto
  show ?case
  proof (cases "is_space d")
    case True
    have d: "d = CHR '' ''" and nxt: "cs = [] \<or> \<not> is_space (hd cs)" and cs: "collapsed cs"
      using col True by (simp_all add: collapsed_space_Cons)
    have ne: "cs \<noteq> []" using l True by auto
    then have "\<not> is_space (hd cs)" "\<not> is_space (last cs)" using nxt l by auto
    then have "canon cs" using "3.IH"(1) [OF True cs] by simp
    then show ?thesis using c True d ne by simp
  next
    case False
    then have "canon (d # cs)" using "3.IH"(2) [OF False col] l by simp
    then show ?thesis using c False by simp
  qed
qed

lemma canon_normalize: "canon (normalize p)"
proof -
  define t where "t = sub_spaces (sub_punct (py_lower p))"
  obtain l r where "t = l @ py_strip t @ r" using py_strip_split by blast
  moreover have "collapsed t" unfolding t_def by (rule collapsed_sub_spaces)
  ultimately have "collapsed (py_strip t)"
    using collapsed_append [of l "py_strip t @ r"] collapsed_append [of "py_strip t" r] by metis
  then have "canon (py_strip t)"
    using py_strip_ends [of t] by (intro collapsed_canon) auto
  then show ?thesis by (simp add: normalize_def t_def)
qed

lemma canon_hd: "canon (c # cs) \<Longrightarrow> \<not> is_space c"
  by (cases cs) auto

lemma canon_gap:
  assumes "\<forall>x \<in> set acc. \<not> is_space x" "acc \<noteq> []" "is_space c" "canon (acc @ c # cs)"
  shows "c = CHR '' '' \<and> cs \<noteq> [] \<and> canon cs"
  using assms
proof (induction acc)
  case Nil
  then show ?case by simp
next
  case (Cons a acc)
  show ?case
  proof (cases acc)
    case Nil
    then show ?thesis using Cons.prems by simp
  next
    case (Cons b bs)
    then have "\<not> is_space b" using Cons.prems(1) by simp
    then have "canon (acc @ c # cs)" using Cons.prems(4) Cons by simp
    then show ?thesis using Cons.IH Cons.prems(1, 3) Cons by simp
  qed
qed

lemma runs_acc_nonempty: "acc \<noteq> [] \<Longrightarrow> runs P acc xs \<noteq> []"
  by (induction xs arbitrary: acc) auto

lemma join_spaces_Cons: "R \<noteq> [] \<Longrightarrow> join_spaces (t # R) = t @ CHR '' '' # join_spaces R"
  by (cases R) simp_all

lemma join_runs_canon:
  "canon (acc @ n) \<Longrightarrow> \<forall>x \<in> set acc. \<not> is_space x \<Longrightarrow>
     join_spaces (runs (\<lambda>c. \<not> is_space c) acc n) = acc @ n"
proof (induction n arbitrary: acc)
  case Nil
  then show ?case by simp
next
  case (Cons c cs)
  show ?case
  proof (cases "is_space c")
    case False
    have "join_spaces (runs (\<lambda>c. \<not> is_space c) (acc @ [c]) cs) = (acc @ [c]) @ cs"
      using Cons.prems False by (intro Cons.IH) auto
    then show ?thesis using False by simp
  next
    case True
    have ne: "acc \<noteq> []" using Cons.prems(1) True canon_hd [of c cs] by auto
    have gap: "c = CHR '' ''" "cs \<noteq> []" "canon cs"
      using canon_gap [OF Cons.prems(2) ne True Cons.prems(1)] by auto
    have rest: "join_spaces (runs (\<lambda>c. \<not> is_space c) [] cs) = cs"
      using Cons.IH [of "[]"] gap(3) by simp
    obtain e es where cs: "cs = e # es" using gap(2) by (cases cs) auto
    have "\<not> is_space e" using gap(3) cs canon_hd by blast
    then have "runs (\<lambda>c. \<not> is_space c) [] cs \<noteq> []"
      using runs_acc_nonempty [of "[e]" "\<lambda>c. \<not> is_space c" es] by (simp add: cs)
    then have "join_spaces (acc # runs (\<lambda>c. \<not> is_space c) [] cs)
        = acc @ CHR '' '' # join_spaces (runs (\<lambda>c. \<not> is_space c) [] cs)"
      by (rule join_spaces_Cons)
    then show ?thesis using True ne rest gap(1) by simp
  qed
qed

lemma normalize_join: "normalize (py_strip s) = join_spaces (word_runs (py_lower s))"
proof -
  have "join_spaces (py_split (normalize (py_strip s))) = normalize (py_strip s)"
    using join_runs_canon [of "[]" "normalize (py_strip s)"] canon_normalize
    by (simp add: py_split_runs)
  then show ?thesis by (simp add: tokens_word_runs)
qed

lemma token_chars:
  assumes "t \<in> set (py_split (normalize (py_strip s)))"
  shows "t \<noteq> []
       \<and> (\<forall>c \<in> set t. is_word c \<and> \<not> is_space c \<and> lower_char c = c \<and> c \<in> lower_char ` set s)"
proof -
  have t: "t \<noteq> []" "set t \<subseteq> set (normalize (py_strip s))" "\<forall>c \<in> set t. \<not> is_space c"
    using py_split_tokens [OF assms] by auto
  have "is_word c \<and> lower_char c = c \<and> c \<in> lower_char ` set s" if "c \<in> set t" for c
  proof -
    have "is_word c \<and> lower_char c = c \<and> c \<in> lower_char ` set (py_strip s)"
      using normalize_chars [of c "py_strip s"] t that by auto
    then show ?thesis using set_py_strip [of s] by auto
  qed
  then show ?thesis using t by auto
qed

lemma witness_normalized: "normalize (py_strip ''  Hack_it, NOW!  '') = ''hack_it now''"
  by code_simp

lemma witness_lower: "py_lower ''  Hack_it, NOW!  '' = ''  hack_it, now!  ''"
  by code_simp


subsection \<open>The score fusion\<close>

text \<open>
  Claim C1. For every prompt (a string or \<^verbatim>\<open>None\<close>), and every classifier adapter whose results
  have a confidence in \<open>[0, 1]\<close>, \<^verbatim>\<open>analyze_prompt\<close> returns a report (every exception of the
  adapter is absorbed by the \<^verbatim>\<open>try\<close> block, the \<open>Inl\<close> branch of \<^const>\<open>fuse\<close>) whose
  \<open>threatScore\<close> lies in \<open>[0, 10]\<close>. The score is a multiple of one tenth, and it is the fused
  total clamped to \<open>[0, 10]\<close> and rounded to one decimal place.
\<close>

theorem analyze_prompt_score_bounds:
  assumes "\<forall>p r. predict_fn p = Inr r \<longrightarrow> 0 \<le> ml_confidence r \<and> ml_confidence r \<le> 1"
  shows "0 \<le> threatScore (analyze_prompt predict_fn prompt)
       \<and> threatScore (analyze_prompt predict_fn prompt) \<le> 10
       \<and> (\<exists>k::int. threatScore (analyze_prompt predict_fn prompt) = of_int k / 10)
       \<and> threatScore (analyze_prompt predict_fn prompt) =
            py_round (max 0 (min 10 (snd (snd (fuse
              (fst (keyword_score (py_strip (case prompt of None \<Rightarrow> [] | Some s \<Rightarrow> s))))
              (predict_fn (py_strip (case prompt of None \<Rightarrow> [] | Some s \<Rightarrow> s)))))))) 1"
proof -
  define p where "p = py_strip (case prompt of None \<Rightarrow> [] | Some s \<Rightarrow> s)"
  define total where "total = snd (snd (fuse (fst (keyword_score p)) (predict_fn p)))"
  have ts: "threatScore (analyze_prompt predict_fn prompt) = min 10 (py_round total 1)"
    by (simp add: threatScore_analyze total_def p_def)
  have "0 \<le> fst (keyword_score p)"
    using keyword_score_range by simp
  then have nonneg: "0 \<le> total"
    unfolding total_def using assms by (intro fuse_nonneg) auto
  then have "of_int 0 \<le> py_round total 1"
    by (intro py_round_ge) simp
  then have lo: "0 \<le> min 10 (py_round total 1)" by simp
  have hi: "min 10 (py_round total 1) \<le> 10" by simp
  have "\<exists>k::int. min 10 (py_round total 1) = of_int k / 10"
  proof (cases "10 \<le> py_round total 1")
    case True
    then have "min 10 (py_round total 1) = of_int 100 / 10" by simp
    then show ?thesis by blast
  next
    case False
    then have "min 10 (py_round total 1) = of_int (round_half_even (total * 10 ^ 1)) / 10"
      by (simp add: py_round_def min_def)
    then show ?thesis by blast
  qed
  moreover have "min 10 (py_round total 1) = py_round (max 0 (min 10 total)) 1"
  proof -
    have "py_round (min (of_int 10) total) 1 = min (of_int 10) (py_round total 1)"
      by (rule py_round_min)
    moreover have "max 0 (min 10 total) = min 10 total" using nonneg by simp
    ultimately show ?thesis by simp
  qed
  ultimately show ?thesis using lo hi ts by (simp add: total_def p_def)
qed

text \<open>A classifier that is 90 percent sure of MALICIOUS, on the empty prompt.\<close>

theorem analyze_prompt_score_bounds_witness:
  "0 \<le> threatScore (analyze_prompt (\<lambda>_. Inr \<lparr>ml_prediction = ''MALICIOUS'', ml_confidence = 9 / 10\<rparr>) (Some []))
   \<and> threatScore (analyze_prompt (\<lambda>_. Inr \<lparr>ml_prediction = ''MALICIOUS'', ml_confidence = 9 / 10\<rparr>) (Some [])) \<le> 10"
  using analyze_prompt_score_bounds
    [of "\<lambda>_. Inr \<lparr>ml_prediction = ''MALICIOUS'', ml_confidence = 9 / 10\<rparr>" "Some []"]
  by simp

text \<open>
  Claim C2. In every report, \<open>threatLevel\<close> and \<open>confidence\<close> are step functions of
  \<open>threatScore\<close>: SAFE iff the score is at most 2, MEDIUM iff it is above 2 and at most 6,
  HIGH iff it is above 6; "high" iff the score is at least 8, "medium" iff it is at least 4 and
  below 8, "low" iff it is below 4.
\<close>

theorem threat_level_and_confidence_steps:
  "(threatLevel (analyze_prompt predict_fn prompt) = ''SAFE''
      \<longleftrightarrow> threatScore (analyze_prompt predict_fn prompt) \<le> 2)
   \<and> (threatLevel (analyze_prompt predict_fn prompt) = ''MEDIUM''
      \<longleftrightarrow> 2 < threatScore (analyze_prompt predict_fn prompt)
          \<and> threatScore (analyze_prompt predict_fn prompt) \<le> 6)
   \<and> (threatLevel (analyze_prompt predict_fn prompt) = ''HIGH''
      \<longleftrightarrow> 6 < threatScore (analyze_prompt predict_fn prompt))
   \<and> (confidence (analyze_prompt predict_fn prompt) = ''high''
      \<longleftrightarrow> 8 \<le> threatScore (analyze_prompt predict_fn prompt))
   \<and> (confidence (analyze_prompt predict_fn prompt) = ''medium''
      \<longleftrightarrow> 4 \<le> threatScore (analyze_prompt predict_fn prompt)
          \<and> threatScore (analyze_prompt predict_fn prompt) < 8)
   \<and> (confidence (analyze_prompt predict_fn prompt) = ''low''
      \<longleftrightarrow> threatScore (analyze_prompt predict_fn prompt) < 4)"
  unfolding threatLevel_analyze confidence_analyze Let_def by auto

text \<open>The boundary 2.0: a score of exactly 2 is SAFE with confidence "low".\<close>

theorem threat_level_and_confidence_steps_witness:
  "threatScore (analyze_prompt (\<lambda>_. Inr \<lparr>ml_prediction = ''MALICIOUS'', ml_confidence = 2 / 5\<rparr>) None) = 2
   \<and> threatLevel (analyze_prompt (\<lambda>_. Inr \<lparr>ml_prediction = ''MALICIOUS'', ml_confidence = 2 / 5\<rparr>) None) = ''SAFE''
   \<and> confidence (analyze_prompt (\<lambda>_. Inr \<lparr>ml_prediction = ''MALICIOUS'', ml_confidence = 2 / 5\<rparr>) None) = ''low''"
proof -
  have "threatScore (analyze_prompt (\<lambda>_. Inr \<lparr>ml_prediction = ''MALICIOUS'', ml_confidence = 2 / 5\<rparr>) None) = 2"
    by (simp add: threatScore_analyze py_strip_empty keyword_score_empty fuse_def py_round_examples)
  then show ?thesis
    using threat_level_and_confidence_steps
      [of "\<lambda>_. Inr \<lparr>ml_prediction = ''MALICIOUS'', ml_confidence = 2 / 5\<rparr>" None]
    by simp
qed

text \<open>
  Claim C3. Whenever the classifier adapter returns the label MALICIOUS with a confidence of at
  least 0.5, the final \<open>threatScore\<close> is at least 7, whatever the prompt and its keyword score.
\<close>

theorem malicious_override:
  assumes "predict_fn (py_strip (case prompt of None \<Rightarrow> [] | Some s \<Rightarrow> s)) = Inr r"
    and "ml_prediction r = ''MALICIOUS''"
    and "1 / 2 \<le> ml_confidence r"
  shows "7 \<le> threatScore (analyze_prompt predict_fn prompt)"
proof -
  define p where "p = py_strip (case prompt of None \<Rightarrow> [] | Some s \<Rightarrow> s)"
  define total where "total = snd (snd (fuse (fst (keyword_score p)) (predict_fn p)))"
  have "7 \<le> total"
    unfolding total_def using assms by (simp add: fuse_def Let_def p_def)
  then have "of_int 7 \<le> py_round total 1"
    by (intro py_round_ge) simp
  then show ?thesis
    by (simp add: threatScore_analyze total_def p_def)
qed

text \<open>With a keyword score of 0 and a confidence of exactly 0.5 the score is exactly 7.\<close>

theorem malicious_override_witness:
  "threatScore (analyze_prompt (\<lambda>_. Inr \<lparr>ml_prediction = ''MALICIOUS'', ml_confidence = 1 / 2\<rparr>) None) = 7"
proof -
  have "7 \<le> threatScore (analyze_prompt (\<lambda>_. Inr \<lparr>ml_prediction = ''MALICIOUS'', ml_confidence = 1 / 2\<rparr>) None)"
    by (rule malicious_override [where r = "\<lparr>ml_prediction = ''MALICIOUS'', ml_confidence = 1 / 2\<rparr>"]) simp_all
  moreover have "threatScore (analyze_prompt (\<lambda>_. Inr \<lparr>ml_prediction = ''MALICIOUS'', ml_confidence = 1 / 2\<rparr>) None) \<le> 7"
    by (simp add: threatScore_analyze py_strip_empty keyword_score_empty fuse_def py_round_examples)
  ultimately show ?thesis by simp
qed

subsection \<open>The classifier adapter\<close>

text \<open>
  Claim C8. \<^verbatim>\<open>predict_prompt\<close> never raises: whatever the artifacts (present or absent) and
  whatever the vectorizer and the model do (return or raise), it returns a result whose label is
  SAFE or MALICIOUS; the confidence lies in \<open>[0, 1]\<close> when the model's \<^verbatim>\<open>predict_proba\<close> returns
  probabilities; and when an artifact is absent or any step inside the \<^verbatim>\<open>try\<close> raises, the result is
  exactly the safe default, label SAFE with confidence 0.
\<close>

theorem predict_prompt_never_raises:
  "(\<exists>r. predict_prompt mdl vec prompt = Inr r
        \<and> (ml_prediction r = ''SAFE'' \<or> ml_prediction r = ''MALICIOUS'')
        \<and> ((\<forall>m X ps. mdl = Some m \<and> predict_proba m X = Inr ps
               \<longrightarrow> (\<forall>row \<in> set ps. \<forall>q \<in> set row. 0 \<le> q \<and> q \<le> 1))
             \<longrightarrow> 0 \<le> ml_confidence r \<and> ml_confidence r \<le> 1))
   \<and> (mdl = None \<or> vec = None \<longrightarrow> predict_prompt mdl vec prompt = Inr SAFE_DEFAULT)
   \<and> (\<forall>m v e. mdl = Some m \<and> vec = Some v \<and> predict_body m v prompt = Inl e
         \<longrightarrow> predict_prompt mdl vec prompt = Inr SAFE_DEFAULT)
   \<and> SAFE_DEFAULT = \<lparr>ml_prediction = ''SAFE'', ml_confidence = 0\<rparr>"
proof (intro conjI)
  show "\<exists>r. predict_prompt mdl vec prompt = Inr r
        \<and> (ml_prediction r = ''SAFE'' \<or> ml_prediction r = ''MALICIOUS'')
        \<and> ((\<forall>m X ps. mdl = Some m \<and> predict_proba m X = Inr ps
               \<longrightarrow> (\<forall>row \<in> set ps. \<forall>q \<in> set row. 0 \<le> q \<and> q \<le> 1))
             \<longrightarrow> 0 \<le> ml_confidence r \<and> ml_confidence r \<le> 1)"
  proof (cases mdl)
    case None
    then show ?thesis by (simp add: predict_prompt_def SAFE_DEFAULT_def)
  next
    case (Some m)
    note m = this
    show ?thesis
    proof (cases vec)
      case None
      then show ?thesis using m by (simp add: predict_prompt_def SAFE_DEFAULT_def)
    next
      case (Some v)
      show ?thesis
      proof (cases "predict_body m v prompt")
        case (Inl e)
        then show ?thesis using m Some by (simp add: predict_prompt_def SAFE_DEFAULT_def)
      next
        case (Inr r)
        then have "predict_prompt mdl vec prompt = Inr r"
          using m Some by (simp add: predict_prompt_def)
        moreover have "ml_prediction r = ''SAFE'' \<or> ml_prediction r = ''MALICIOUS''"
          using Inr by (rule predict_body_label)
        moreover have "(\<forall>m X ps. mdl = Some m \<and> predict_proba m X = Inr ps
               \<longrightarrow> (\<forall>row \<in> set ps. \<forall>q \<in> set row. 0 \<le> q \<and> q \<le> 1))
             \<longrightarrow> 0 \<le> ml_confidence r \<and> ml_confidence r \<le> 1"
          using predict_body_confidence [OF Inr] m by blast
        ultimately show ?thesis by blast
      qed
    qed
  qed
next
  show "mdl = None \<or> vec = None \<longrightarrow> predict_prompt mdl vec prompt = Inr SAFE_DEFAULT"
    by (auto simp: predict_prompt_def split: option.splits)
next
  show "\<forall>m v e. mdl = Some m \<and> vec = Some v \<and> predict_body m v prompt = Inl e
         \<longrightarrow> predict_prompt mdl vec prompt = Inr SAFE_DEFAULT"
    by (auto simp: predict_prompt_def)
next
  show "SAFE_DEFAULT = \<lparr>ml_prediction = ''SAFE'', ml_confidence = 0\<rparr>"
    by (simp add: SAFE_DEFAULT_def)
qed


text \<open>
  A model that predicts class 1 with probability 0.8, a model whose \<^verbatim>\<open>predict\<close> returns an empty
  array (so that indexing it raises), and an absent model.
\<close>

theorem predict_prompt_never_raises_witness:
  "predict_prompt (Some demo_model) (Some demo_vectorizer) (Some ''Hack it'')
     = Inr \<lparr>ml_prediction = ''MALICIOUS'', ml_confidence = 4 / 5\<rparr>
   \<and> predict_prompt (Some broken_model) (Some demo_vectorizer) (Some ''Hack it'') = Inr SAFE_DEFAULT
   \<and> predict_prompt (None :: unit model option) (Some demo_vectorizer) (Some ''Hack it'') = Inr SAFE_DEFAULT"
proof -
  have "predict_body demo_model demo_vectorizer (Some ''Hack it'')
      = Inr \<lparr>ml_prediction = ''MALICIOUS'', ml_confidence = 4 / 5\<rparr>"
    by (simp add: predict_body_def demo_model_def demo_vectorizer_def py_index_def py_round_four_fifths)
  then have "predict_prompt (Some demo_model) (Some demo_vectorizer) (Some ''Hack it'')
     = Inr \<lparr>ml_prediction = ''MALICIOUS'', ml_confidence = 4 / 5\<rparr>"
    by (simp add: predict_prompt_def)
  moreover have "predict_body broken_model demo_vectorizer (Some ''Hack it'') = Inl IndexError"
    by (simp add: predict_body_def broken_model_def demo_vectorizer_def py_index_def)
  then have "predict_prompt (Some broken_model) (Some demo_vectorizer) (Some ''Hack it'') = Inr SAFE_DEFAULT"
    using predict_prompt_never_raises [of "Some broken_model" "Some demo_vectorizer" "Some ''Hack it''"]
    by blast
  moreover have "predict_prompt (None :: unit model option) (Some demo_vectorizer) (Some ''Hack it'') = Inr SAFE_DEFAULT"
    using predict_prompt_never_raises [of "None :: unit model option" "Some demo_vectorizer" "Some ''Hack it''"]
    by blast
  ultimately show ?thesis by blast
qed


subsection \<open>Blank prompts\<close>

text \<open>
  Claim C4, as amended. For a prompt that is \<^verbatim>\<open>None\<close>, empty or made of whitespace only, the keyword
  scorer short-circuits: the keyword score is 0 and \<open>detectedActions\<close> and \<open>detectedTargets\<close> are
  empty, for every classifier result. The classifier is still consulted (on the empty string), so
  \<open>threatScore\<close> is 0 when the adapter raises or returns a label other than MALICIOUS, as the safe
  default does.
\<close>

theorem blank_prompt_report:
  assumes "prompt = None \<or> (\<exists>s. prompt = Some s \<and> (\<forall>c \<in> set s. is_space c))"
  shows "detectedActions (analyze_prompt predict_fn prompt) = {}
       \<and> detectedTargets (analyze_prompt predict_fn prompt) = {}
       \<and> keyword_score (py_strip (case prompt of None \<Rightarrow> [] | Some s \<Rightarrow> s)) = (0, {}, {})
       \<and> ((\<forall>r. predict_fn [] = Inr r \<longrightarrow> ml_prediction r \<noteq> ''MALICIOUS'')
            \<longrightarrow> threatScore (analyze_prompt predict_fn prompt) = 0)"
proof -
  have p: "py_strip (case prompt of None \<Rightarrow> [] | Some s \<Rightarrow> s) = []"
    using assms by (rule blank_prompt_strip)
  have "(\<forall>r. predict_fn [] = Inr r \<longrightarrow> ml_prediction r \<noteq> ''MALICIOUS'')
            \<longrightarrow> threatScore (analyze_prompt predict_fn prompt) = 0"
    using keyword_only_score [of predict_fn prompt] by (simp add: p keyword_score_empty)
  then show ?thesis
    by (simp add: detected_analyze p keyword_score_empty)
qed


text \<open>A prompt of a space, a tab and a line feed, with the safe default as classifier result.\<close>

theorem blank_prompt_report_witness:
  "detectedActions (analyze_prompt (\<lambda>_. Inr SAFE_DEFAULT) (Some [CHR '' '', CHR 0x09, CHR 0x0A])) = {}
   \<and> detectedTargets (analyze_prompt (\<lambda>_. Inr SAFE_DEFAULT) (Some [CHR '' '', CHR 0x09, CHR 0x0A])) = {}
   \<and> threatScore (analyze_prompt (\<lambda>_. Inr SAFE_DEFAULT) (Some [CHR '' '', CHR 0x09, CHR 0x0A])) = 0"
proof -
  have "\<forall>c \<in> set [CHR '' '', CHR 0x09, CHR 0x0A]. is_space c"
    by (simp add: is_space_def)
  then show ?thesis
    using blank_prompt_report [of "Some [CHR '' '', CHR 0x09, CHR 0x0A]" "\<lambda>_. Inr SAFE_DEFAULT"]
    by (simp add: SAFE_DEFAULT_def)
qed


text \<open>
  The claim as stated, with "for every possible classifier result", fails: on a prompt of two
  spaces, a classifier result MALICIOUS with confidence 0.9 gives a score of 7.
\<close>

theorem blank_prompt_counterexample:
  "threatScore (analyze_prompt (\<lambda>_. Inr \<lparr>ml_prediction = ''MALICIOUS'', ml_confidence = 9 / 10\<rparr>)
      (Some [CHR '' '', CHR '' ''])) = 7"
proof -
  have "py_strip [CHR '' '', CHR '' ''] = []"
    by (simp add: py_strip_def is_space_def)
  then show ?thesis
    by (simp add: threatScore_analyze keyword_score_empty fuse_def py_round_examples)
qed


subsection \<open>An end-to-end example\<close>

text \<open>
  Claim C9. On the prompt "How to hack a password?" with the classifier result fixed to the safe
  default (SAFE with confidence 0): the tokens are how, to, hack, a, password; the intent phrase is
  found; "hack" is an action hit at index 2 and "password" a sensitive-target hit at index 4; the
  keyword score is 4; and the report has \<open>threatScore\<close> 4, \<open>threatLevel\<close> MEDIUM and
  \<open>confidence\<close> "medium".
\<close>

theorem example_how_to_hack:
  "py_split (normalize (py_strip ''How to hack a password?''))
      = [''how'', ''to'', ''hack'', ''a'', ''password'']
   \<and> has_intent_phrase (normalize (py_strip ''How to hack a password?''))
   \<and> scan_tokens (py_split (normalize (py_strip ''How to hack a password?'')))
      = ([\<lparr>word = ''hack'', idx = 2\<rparr>], [\<lparr>word = ''password'', idx = 4\<rparr>], [])
   \<and> keyword_score (py_strip ''How to hack a password?'') = (4, {''hack''}, {''password''})
   \<and> threatScore (analyze_prompt (\<lambda>_. Inr SAFE_DEFAULT) (Some ''How to hack a password?'')) = 4
   \<and> threatLevel (analyze_prompt (\<lambda>_. Inr SAFE_DEFAULT) (Some ''How to hack a password?'')) = ''MEDIUM''
   \<and> confidence (analyze_prompt (\<lambda>_. Inr SAFE_DEFAULT) (Some ''How to hack a password?'')) = ''medium''"
proof -
  have "threatScore (analyze_prompt (\<lambda>_. Inr SAFE_DEFAULT) (Some ''How to hack a password?'')) = 4"
    using keyword_only_score [of "\<lambda>_. Inr SAFE_DEFAULT" "Some ''How to hack a password?''"]
    by (simp add: SAFE_DEFAULT_def ex_strip ex_keyword)
  then show ?thesis
    by (simp add: threatLevel_analyze confidence_analyze ex_strip ex_normalize ex_tokens ex_intent
        ex_scan ex_keyword)
qed


subsection \<open>Letter case and surrounding whitespace\<close>

text \<open>
  Claim C10, as amended. With the artifacts of the classifier fixed, the report of
  \<^verbatim>\<open>analyze_prompt\<close> is the same for a prompt \<open>s\<close>, for its lower case, and for \<open>s\<close> with whitespace
  added in front and behind; and it is the same for the upper case \<open>u\<close> of \<open>s\<close> whenever \<open>u\<close> and \<open>s\<close>
  have the same lower case, which is so for every prompt of ASCII characters.
\<close>

theorem analyze_case_and_padding:
  "analyze mdl vec (Some (py_lower s)) = analyze mdl vec (Some s)
   \<and> ((\<forall>c \<in> set l. is_space c) \<and> (\<forall>c \<in> set r. is_space c)
        \<longrightarrow> analyze mdl vec (Some (l @ s @ r)) = analyze mdl vec (Some s))
   \<and> (\<forall>u. py_upper s = Some u \<and> py_lower u = py_lower s
        \<longrightarrow> analyze mdl vec (Some u) = analyze mdl vec (Some s))
   \<and> ((\<forall>c \<in> set s. is_ascii c)
        \<longrightarrow> (\<exists>u. py_upper s = Some u \<and> analyze mdl vec (Some u) = analyze mdl vec (Some s)))"
proof (intro conjI)
  show "analyze mdl vec (Some (py_lower s)) = analyze mdl vec (Some s)"
    by (rule analyze_cong) (simp add: py_strip_lower py_lower_idem)
next
  show "(\<forall>c \<in> set l. is_space c) \<and> (\<forall>c \<in> set r. is_space c)
        \<longrightarrow> analyze mdl vec (Some (l @ s @ r)) = analyze mdl vec (Some s)"
    by (auto intro!: analyze_cong simp: py_strip_pad)
next
  have upper: "analyze mdl vec (Some u) = analyze mdl vec (Some s)" if "py_lower u = py_lower s" for u
  proof (rule analyze_cong)
    have "py_lower (py_strip u) = py_strip (py_lower u)" by (simp add: py_strip_lower)
    also have "\<dots> = py_strip (py_lower s)" using that by simp
    also have "\<dots> = py_lower (py_strip s)" by (simp add: py_strip_lower)
    finally show "py_lower (py_strip u) = py_lower (py_strip s)" .
  qed
  then show "\<forall>u. py_upper s = Some u \<and> py_lower u = py_lower s
        \<longrightarrow> analyze mdl vec (Some u) = analyze mdl vec (Some s)"
    by blast
  show "(\<forall>c \<in> set s. is_ascii c)
        \<longrightarrow> (\<exists>u. py_upper s = Some u \<and> analyze mdl vec (Some u) = analyze mdl vec (Some s))"
    using py_upper_ascii [of s] upper by blast
qed


text \<open>A prompt in mixed case, padded with spaces, in upper case and in lower case.\<close>

theorem analyze_case_and_padding_witness:
  "analyze (Some demo_model) (Some demo_vectorizer) (Some ''  How To HACK a Password?  '')
     = analyze (Some demo_model) (Some demo_vectorizer) (Some ''How To HACK a Password?'')
   \<and> analyze (Some demo_model) (Some demo_vectorizer) (Some ''HOW TO HACK A PASSWORD?'')
     = analyze (Some demo_model) (Some demo_vectorizer) (Some ''How To HACK a Password?'')
   \<and> analyze (Some demo_model) (Some demo_vectorizer) (Some (py_lower ''How To HACK a Password?''))
     = analyze (Some demo_model) (Some demo_vectorizer) (Some ''How To HACK a Password?'')"
proof -
  have sp: "\<forall>c \<in> set ''  ''. is_space c" by (simp add: is_space_def)
  have up: "py_upper ''How To HACK a Password?'' = Some ''HOW TO HACK A PASSWORD?''"
    by code_simp
  have lo: "py_lower ''HOW TO HACK A PASSWORD?'' = py_lower ''How To HACK a Password?''"
    by code_simp
  show ?thesis
    using analyze_case_and_padding
      [of "Some demo_model" "Some demo_vectorizer" "''How To HACK a Password?''" "''  ''" "''  ''"]
      sp up lo
    by simp
qed


text \<open>
  The claim as stated, for every string, fails on upper case: \<^verbatim>\<open>str.upper\<close> turns the sharp s into
  SS, and lower-casing does not turn it back. Without a model, "ha\<ss>k password" scores 3 (the
  first token is one substitution away from "hack") and its upper case "HASSK PASSWORD" scores 0.
\<close>

theorem analyze_upper_counterexample:
  "py_upper sharp_s_prompt = Some ''HASSK PASSWORD''
   \<and> threatScore (analyze (None :: unit model option) None (Some sharp_s_prompt)) = 3
   \<and> threatScore (analyze (None :: unit model option) None (Some ''HASSK PASSWORD'')) = 0"
  by (simp add: sharp_upper analyze_no_model sharp_strip sharp_kw sharp_kw_upper)


subsection \<open>Normalization\<close>

text \<open>
  Claim C7, as amended. The token sequence of a prompt \<open>s\<close> is
  \<open>py_split (normalize (py_strip s))\<close>: trim, lower-case, replace every character that is neither
  a word character nor whitespace by a space, collapse runs of whitespace, trim again, split on
  whitespace. A word character is a character of the class \<^verbatim>\<open>\w\<close>: alphanumeric in the sense of
  \<^verbatim>\<open>str.isalnum\<close> (a letter, a digit or another numeric character such as U+00BD) or the
  underscore. For every input, the tokens are exactly the maximal runs of word characters of the
  lower-cased input, in their order; the normalized text is these tokens joined by single spaces;
  and so every token is non-empty, and every character of a token is a word character, is not
  whitespace, is in lower case, and is the lower case of a character of the input.
\<close>

theorem normalization_tokens:
  "py_split (normalize (py_strip s)) = word_runs (py_lower s)
   \<and> normalize (py_strip s) = join_spaces (word_runs (py_lower s))
   \<and> (\<forall>t \<in> set (py_split (normalize (py_strip s))).
        t \<noteq> [] \<and> (\<forall>c \<in> set t. is_word c \<and> \<not> is_space c \<and> lower_char c = c
                        \<and> c \<in> lower_char ` set s))"
  using tokens_word_runs [of s] normalize_join [of s] token_chars [of _ s] by blast


text \<open>A padded prompt with upper case, punctuation and an underscore.\<close>

theorem normalization_tokens_witness:
  "py_split (normalize (py_strip ''  Hack_it, NOW!  '')) = [''hack_it'', ''now'']
   \<and> word_runs ''  hack_it, now!  '' = [''hack_it'', ''now'']
   \<and> normalize (py_strip ''  Hack_it, NOW!  '') = ''hack_it now''
   \<and> join_spaces [''hack_it'', ''now''] = ''hack_it now''"
proof -
  have w: "word_runs ''  hack_it, now!  '' = [''hack_it'', ''now'']"
    using normalization_tokens [of "''  Hack_it, NOW!  ''"]
    unfolding witness_tokens witness_lower by (rule conjunct1 [THEN sym])
  have j: "join_spaces [''hack_it'', ''now''] = ''hack_it now''"
    by simp
  show ?thesis
    by (intro conjI witness_tokens w witness_normalized j)
qed


text \<open>
  The claim as stated fails: the underscore belongs to the class \<^verbatim>\<open>\w\<close> and so survives into a
  token, although it is no letter, no digit and no whitespace.
\<close>

theorem normalization_underscore_counterexample:
  "py_split (normalize (py_strip ''a_b'')) = [''a_b'']
   \<and> \<not> is_alnum CHR ''_'' \<and> \<not> is_space CHR ''_''"
  by (simp add: underscore_tokens is_alnum_def is_space_def)


subsection \<open>The fuzzy lexicon matcher\<close>

text \<open>
  Claim C6. For every token and lexicon, the match computed by the code is the one the
  specification describes: the token itself when the lexicon contains it; otherwise the first
  entry, in lexicon order, whose edit distance to the token is at most 1 and smallest among all
  entries, and no match when no entry is within distance 1. The distance the code computes in its
  table is the classic dynamic-programming edit distance. So a token within distance 1 of a lexicon
  word is a hit, as the exact word is, and a token at distance 2 or more from every entry is not.
\<close>

theorem lexicon_match_spec:
  "lexicon_match token lexicon = spec_match token lexicon 1
   \<and> levenshtein token w = edit_distance token w
   \<and> (token \<in> set lexicon \<longrightarrow> lexicon_match token lexicon = Some token)
   \<and> ((\<exists>c \<in> set lexicon. edit_distance token c \<le> 1)
        \<longrightarrow> (\<exists>c \<in> set lexicon. lexicon_match token lexicon = Some c \<and> edit_distance token c \<le> 1))
   \<and> ((\<forall>c \<in> set lexicon. 2 \<le> edit_distance token c) \<longrightarrow> lexicon_match token lexicon = None)"
proof (intro conjI impI)
  show spec: "lexicon_match token lexicon = spec_match token lexicon 1"
    by (simp add: lexicon_match_def spec_match_def closest_match_find levenshtein_edit_distance)
  show "levenshtein token w = edit_distance token w"
    by (rule levenshtein_edit_distance)
  show "lexicon_match token lexicon = Some token" if "token \<in> set lexicon"
    using that by (simp add: lexicon_match_def)
  show "\<exists>c \<in> set lexicon. lexicon_match token lexicon = Some c \<and> edit_distance token c \<le> 1"
    if "\<exists>c \<in> set lexicon. edit_distance token c \<le> 1"
  proof (cases "token \<in> set lexicon")
    case True
    then show ?thesis by (auto simp: lexicon_match_def edit_distance_same)
  next
    case False
    from that have "closest_match token lexicon 1 \<noteq> None"
      by (auto simp: closest_match_None levenshtein_edit_distance not_less)
    then obtain c where c: "closest_match token lexicon 1 = Some c" by auto
    then show ?thesis
      using closest_match_Some [OF c] False
      by (auto simp: lexicon_match_def levenshtein_edit_distance dest: first_min_mem)
  qed
  show "lexicon_match token lexicon = None" if "\<forall>c \<in> set lexicon. 2 \<le> edit_distance token c"
  proof -
    have "token \<notin> set lexicon"
      using that edit_distance_same [of token] by force
    moreover have "closest_match token lexicon 1 = None"
      using that by (force simp: closest_match_None levenshtein_edit_distance)
    ultimately show ?thesis by (simp add: lexicon_match_def)
  qed
qed


text \<open>
  The typo "hsck" is one substitution away from "hack" and matches it; "hsxk" is two
  substitutions away and matches nothing.
\<close>

theorem lexicon_match_spec_witness:
  "spec_match ''hsck'' RISKY_ACTIONS 1 = Some ''hack''
   \<and> lexicon_match ''hack'' RISKY_ACTIONS = Some ''hack''
   \<and> lexicon_match ''hsxk'' RISKY_ACTIONS = None
   \<and> edit_distance ''hsck'' ''hack'' = 1
   \<and> edit_distance ''hsxk'' ''hack'' = 2"
  using lexicon_match_spec [where token = "''hsck''" and lexicon = RISKY_ACTIONS and w = "''hack''"]
    lexicon_match_spec [where token = "''hsxk''" and lexicon = RISKY_ACTIONS and w = "''hack''"]
    typo_examples
  by simp


subsection \<open>The proximity rule scorer\<close>

text \<open>
  Claim C5. The keyword score is 3 for every pair of an action hit and a sensitive-target hit at
  most 3 token positions apart, plus 1 for every pair of an action hit and a safe-target hit in
  the same window, plus 1 if the normalized text contains "how to", "ways to" or "method to" as a
  substring, the sum clamped to at most 5; pairs are counted without deduplication. The score is
  an integer between 0 and 5. A single pair at distance exactly 3 gives 3, and at distance 4 gives 0.
\<close>

theorem keyword_score_formula:
  "fst (keyword_score prompt) =
     spec_keyword_score
       (spec_hits RISKY_ACTIONS (py_split (normalize prompt)))
       (spec_hits SENSITIVE_TARGETS (py_split (normalize prompt)))
       (spec_hits SAFE_TARGETS (py_split (normalize prompt)))
       (contains (normalize prompt) ''how to'' \<or> contains (normalize prompt) ''ways to''
          \<or> contains (normalize prompt) ''method to'')
   \<and> 0 \<le> fst (keyword_score prompt) \<and> fst (keyword_score prompt) \<le> 5
   \<and> pattern_score 3 [a] [t] 0 = (if \<bar>idx a - idx t\<bar> \<le> 3 then 3 else 0)
   \<and> (\<bar>idx a - idx t\<bar> = 3 \<longrightarrow> pattern_score 3 [a] [t] 0 = 3)
   \<and> (\<bar>idx a - idx t\<bar> = 4 \<longrightarrow> pattern_score 3 [a] [t] 0 = 0)"
proof -
  have formula: "fst (keyword_score prompt) =
     spec_keyword_score
       (spec_hits RISKY_ACTIONS (py_split (normalize prompt)))
       (spec_hits SENSITIVE_TARGETS (py_split (normalize prompt)))
       (spec_hits SAFE_TARGETS (py_split (normalize prompt)))
       (contains (normalize prompt) ''how to'' \<or> contains (normalize prompt) ''ways to''
          \<or> contains (normalize prompt) ''method to'')"
  proof (cases "normalize prompt = []")
    case True
    then show ?thesis
      by (simp add: keyword_score_def spec_keyword_score_def spec_hits_def py_split_empty
          contains_def)
  next
    case False
    then show ?thesis
      by (simp add: keyword_score_def Let_def scan_tokens_hits pattern_score_count
          spec_keyword_score_def has_intent_contains min.commute)
  qed
  have single: "pattern_score 3 [a] [t] 0 = (if \<bar>idx a - idx t\<bar> \<le> 3 then 3 else 0)"
    by (simp add: pattern_score_def MAX_DISTANCE_def)
  have "0 \<le> spec_keyword_score A B C i \<and> spec_keyword_score A B C i \<le> 5" for A B C i
    by (simp add: spec_keyword_score_def)
  then show ?thesis using formula single by simp
qed


text \<open>
  "hack" and "password" with two tokens between them are 3 positions apart and score 3; with
  three tokens between them they are 4 apart and score 0.
\<close>

theorem keyword_score_formula_witness:
  "spec_keyword_score
       (spec_hits RISKY_ACTIONS (py_split (normalize ''hack qq qq password'')))
       (spec_hits SENSITIVE_TARGETS (py_split (normalize ''hack qq qq password'')))
       (spec_hits SAFE_TARGETS (py_split (normalize ''hack qq qq password'')))
       (contains (normalize ''hack qq qq password'') ''how to''
          \<or> contains (normalize ''hack qq qq password'') ''ways to''
          \<or> contains (normalize ''hack qq qq password'') ''method to'') = 3
   \<and> fst (keyword_score ''hack qq qq password'') = 3
   \<and> fst (keyword_score ''hack qq qq qq password'') = 0"
  using keyword_score_formula [where prompt = "''hack qq qq password''"] window_examples
  by simp


end
